theory Spec2Isabelle
  imports Complex_Main "HOL-Library.Word"
begin

unbundle bit_operations_syntax

section \<open>The undo history of CanvasComponent\<close>

text \<open>
  The component keeps \<open>{ history: string[], currentIndex: number }\<close> in a React state
  cell. Every update of the cell is modelled as a function from the committed state to the
  next one; the updates are applied one after the other, in the order the handlers run.
  A snapshot is the string returned by \<open>canvas.toDataURL()\<close>.
\<close>

record historyState =
  history :: "string list"
  currentIndex :: int

definition initialHistoryState :: historyState where
  "initialHistoryState = \<lparr>history = [], currentIndex = - 1\<rparr>"

definition maxHistorySize :: nat where
  "maxHistorySize = 20"

text \<open>
  \<open>Array.prototype.slice(0, end)\<close>: a negative \<open>end\<close> counts from the end of the
  array, and the result is clipped to the array.
\<close>

definition slice0 :: "'a list \<Rightarrow> int \<Rightarrow> 'a list" where
  "slice0 xs end =
     (let len = int (length xs);
          final = (if end < 0 then max (len + end) 0 else min end len)
      in take (nat final) xs)"

text \<open>
  The effect that seeds the history once the 2D context is there. \<open>canvasContext\<close> says
  whether the context is non-null; \<open>canvas\<close> is \<open>None\<close> when \<open>canvasRef.current\<close> is
  null and otherwise holds what \<open>toDataURL()\<close> returns.
\<close>

definition seedHistory :: "bool \<Rightarrow> string option \<Rightarrow> historyState \<Rightarrow> historyState" where
  "seedHistory canvasContext canvas st =
     (case canvas of
        None \<Rightarrow> st
      | Some imageData \<Rightarrow>
          if canvasContext then \<lparr>history = [imageData], currentIndex = 0\<rparr> else st)"

definition saveCanvasState :: "string option \<Rightarrow> historyState \<Rightarrow> historyState" where
  "saveCanvasState canvas prev =
     (case canvas of
        None \<Rightarrow> prev
      | Some imageData \<Rightarrow>
          (let h0 = slice0 (history prev) (currentIndex prev + 1);
               h1 = h0 @ [imageData];
               h2 = (if length h1 > maxHistorySize then tl h1 else h1)
           in \<lparr>history = h2, currentIndex = int (length h2) - 1\<rparr>))"

text \<open>
  \<open>clearCanvas\<close> clears the surface and records the cleared surface; \<open>canvas\<close> is the
  snapshot of the surface after \<open>clearRect\<close>. Without a mounted canvas the state stays
  as it is.
\<close>

definition clearCanvas :: "bool \<Rightarrow> string option \<Rightarrow> historyState \<Rightarrow> historyState" where
  "clearCanvas canvasContext canvas st =
     (if canvasContext then saveCanvasState canvas st else st)"

text \<open>
  What \<open>undo\<close> hands to \<open>restoreCanvasState\<close>: nothing, or the value of
  \<open>history[prev]\<close>, which is \<open>undefined\<close> (here \<open>None\<close>) past the end of the array.
\<close>

datatype restore = NoRestore | Restore "string option"

definition arrayGet :: "'a list \<Rightarrow> int \<Rightarrow> 'a option" where
  "arrayGet xs i = (if 0 \<le> i \<and> i < int (length xs) then Some (xs ! nat i) else None)"

definition undo :: "historyState \<Rightarrow> historyState \<times> restore" where
  "undo st =
     (if currentIndex st > 0 then
        (let prev = currentIndex st - 1
         in (st\<lparr>currentIndex := prev\<rparr>, Restore (arrayGet (history st) prev)))
      else (st, NoRestore))"

definition canUndo :: "historyState \<Rightarrow> bool" where
  "canUndo st \<longleftrightarrow> currentIndex st > 0"

text \<open>The operations that touch the history, as events of the component.\<close>

datatype historyEvent =
    Seed bool "string option"
  | Record "string option"
  | Undo
  | Clear bool "string option"

fun historyStep :: "historyState \<Rightarrow> historyEvent \<Rightarrow> historyState" where
  "historyStep st (Seed ctx canvas) = seedHistory ctx canvas st"
| "historyStep st (Record canvas) = saveCanvasState canvas st"
| "historyStep st Undo = fst (undo st)"
| "historyStep st (Clear ctx canvas) = clearCanvas ctx canvas st"

text \<open>The invariant of the history state, as the data model words it.\<close>

definition historyInvariant :: "historyState \<Rightarrow> bool" where
  "historyInvariant st \<longleftrightarrow>
     (history st \<noteq> [] \<longrightarrow> 0 \<le> currentIndex st \<and> currentIndex st < int (length (history st)))
     \<and> (currentIndex st = - 1 \<longleftrightarrow> history st = [])
     \<and> length (history st) \<le> maxHistorySize"

text \<open>Recording a list of snapshots one after the other, the canvas being mounted.\<close>

definition recordAll :: "historyState \<Rightarrow> string list \<Rightarrow> historyState" where
  "recordAll st imgs = foldl (\<lambda>s img. saveCanvasState (Some img) s) st imgs"

definition undoTimes :: "nat \<Rightarrow> historyState \<Rightarrow> historyState" where
  "undoTimes n st = ((\<lambda>s. fst (undo s)) ^^ n) st"

section \<open>Parsing the fill colour\<close>

text \<open>
  \<open>hexToRgba\<close> strips the first \<open>#\<close>, parses the rest with \<open>parseInt(clean, 16)\<close>
  and takes the three low bytes with \<open>>>\<close> and \<open>&\<close>. Strings are lists of code
  units below 256. \<open>parseInt\<close> with radix 16 skips leading white space, reads a sign,
  skips one \<open>0x\<close> or \<open>0X\<close>, reads the longest run of hexadecimal digits and returns
  \<open>NaN\<close> (here \<open>None\<close>) when the run is empty; the value is rounded to the nearest
  double, ties to even, which \<open>roundToDouble\<close> does for the integers from \<open>2^53\<close> on.
  A value too large for a double becomes \<open>Infinity\<close>, which \<open>ToInt32\<close> maps to 0, as
  it does every multiple of \<open>2^32\<close>, so the rounded integer gives the same channels.
  The bit operators work on \<open>ToInt32\<close> of their operand, a \<open>32 word\<close> here.
\<close>

fun replaceHash :: "string \<Rightarrow> string" where
  "replaceHash [] = []"
| "replaceHash (c # cs) = (if c = CHR ''#'' then cs else c # replaceHash cs)"

definition isWhiteSpace :: "char \<Rightarrow> bool" where
  "isWhiteSpace c \<longleftrightarrow> (of_char c :: int) \<in> {9, 10, 11, 12, 13, 32, 160}"

definition hexDigitValue :: "char \<Rightarrow> int option" where
  "hexDigitValue c =
     (let n = (of_char c :: int)
      in if 48 \<le> n \<and> n \<le> 57 then Some (n - 48)
         else if 97 \<le> n \<and> n \<le> 102 then Some (n - 87)
         else if 65 \<le> n \<and> n \<le> 70 then Some (n - 55)
         else None)"

fun hexDigits :: "string \<Rightarrow> int list" where
  "hexDigits [] = []"
| "hexDigits (c # cs) = (case hexDigitValue c of None \<Rightarrow> [] | Some d \<Rightarrow> d # hexDigits cs)"

function bitLength :: "int \<Rightarrow> nat" where
  "bitLength n = (if n \<le> 0 then 0 else Suc (bitLength (n div 2)))"
  by pat_completeness auto
termination
  by (relation "measure nat") auto

declare bitLength.simps [simp del]

definition roundToDouble :: "int \<Rightarrow> int" where
  "roundToDouble n =
     (if n < 2 ^ 53 then n
      else let e = bitLength n - 53;
               q = n div 2 ^ e;
               r = n mod 2 ^ e;
               half = 2 ^ (e - 1)
           in (if r > half \<or> (r = half \<and> odd q) then q + 1 else q) * 2 ^ e)"

definition parseInt16 :: "string \<Rightarrow> int option" where
  "parseInt16 s =
     (let s1 = dropWhile isWhiteSpace s;
          sign = (case s1 of c # _ \<Rightarrow> if c = CHR ''-'' then - 1 else 1 | [] \<Rightarrow> (1::int));
          s2 = (case s1 of c # cs \<Rightarrow> if c = CHR ''+'' \<or> c = CHR ''-'' then cs else s1 | [] \<Rightarrow> s1);
          s3 = (case s2 of c # d # cs \<Rightarrow>
                  if c = CHR ''0'' \<and> (d = CHR ''x'' \<or> d = CHR ''X'') then cs else s2
                | _ \<Rightarrow> s2);
          z = hexDigits s3
      in if z = [] then None
         else Some (sign * roundToDouble (foldl (\<lambda>acc d. 16 * acc + d) 0 z)))"

definition toInt32 :: "int option \<Rightarrow> 32 word" where
  "toInt32 v = (case v of None \<Rightarrow> 0 | Some n \<Rightarrow> word_of_int n)"

definition hexToRgba :: "string \<Rightarrow> int \<times> int \<times> int \<times> int" where
  "hexToRgba hex =
     (let clean = replaceHash hex;
          bigint = parseInt16 clean;
          r = sint (signed_drop_bit 16 (toInt32 bigint) AND 255);
          g = sint (signed_drop_bit 8 (toInt32 bigint) AND 255);
          b = sint (toInt32 bigint AND 255)
      in (r, g, b, 255))"

section \<open>Flood fill\<close>

text \<open>
  The canvas is its bitmap: \<open>width * height\<close> pixels of four bytes, row after row.
  \<open>getImageData(0, 0, width, height)\<close> hands out the bytes and throws
  \<open>IndexSizeError\<close> for an empty rectangle. Reading a typed array outside its range
  gives \<open>undefined\<close> (\<open>None\<close>), writing there does nothing, and a
  \<open>Uint8ClampedArray\<close> clamps what is written into it. The coordinates are the finite
  numbers that \<open>getMouseCoordinates\<close> computes, taken as reals; \<open>Math.floor\<close> is
  the floor. \<open>NaN\<close>, which \<open>getMouseCoordinates\<close> yields only for a canvas laid out
  with no width or no height, is not a value of the model. The stack is a list whose head is the top: \<open>pop\<close> takes the head and the four
  \<open>push\<close> calls leave \<open>[xi, yi - 1]\<close> on top. The width and height of the source
  are \<open>w\<close> and \<open>h\<close> in the loop.
\<close>

type_synonym u8 = "8 word"

record canvas =
  width :: nat
  height :: nat
  pixels :: "u8 list"

datatype error = IndexSizeError

definition getImageData :: "canvas \<Rightarrow> error + u8 list" where
  "getImageData ctx =
     (if width ctx = 0 \<or> height ctx = 0 then Inl IndexSizeError else Inr (pixels ctx))"

definition putImageData :: "canvas \<Rightarrow> u8 list \<Rightarrow> canvas" where
  "putImageData ctx data = ctx\<lparr>pixels := data\<rparr>"

definition clampU8 :: "int \<Rightarrow> u8" where
  "clampU8 v = word_of_int (max 0 (min 255 v))"

definition readU8 :: "u8 list \<Rightarrow> int \<Rightarrow> int option" where
  "readU8 a i = map_option uint (arrayGet a i)"

definition writeU8 :: "u8 list \<Rightarrow> int \<Rightarrow> int \<Rightarrow> u8 list" where
  "writeU8 a i v = (if 0 \<le> i \<and> i < int (length a) then a[nat i := clampU8 v] else a)"

type_synonym color = "int \<times> int \<times> int \<times> int"
type_synonym sample = "int option \<times> int option \<times> int option \<times> int option"

definition uint8ClampedArray :: "color \<Rightarrow> u8 list" where
  "uint8ClampedArray c = (case c of (r, g, b, a) \<Rightarrow> [clampU8 r, clampU8 g, clampU8 b, clampU8 a])"

definition colorsMatch :: "u8 list \<Rightarrow> u8 list \<Rightarrow> int \<Rightarrow> bool" where
  "colorsMatch a b idx \<longleftrightarrow>
     readU8 a idx = readU8 b 0 \<and>
     readU8 a (idx + 1) = readU8 b 1 \<and>
     readU8 a (idx + 2) = readU8 b 2 \<and>
     readU8 a (idx + 3) = readU8 b 3"

definition loopBody ::
  "nat \<Rightarrow> nat \<Rightarrow> sample \<Rightarrow> color \<Rightarrow> u8 list \<times> (real \<times> real) list \<Rightarrow> u8 list \<times> (real \<times> real) list" where
  "loopBody w h targetColor fillColor st =
     (case st of
        (data, []) \<Rightarrow> (data, [])
      | (data, (x, y) # stack) \<Rightarrow>
          (let xi = \<lfloor>x\<rfloor>;
               yi = \<lfloor>y\<rfloor>;
               idx = (yi * int w + xi) * 4
           in if xi < 0 \<or> xi \<ge> int w \<or> yi < 0 \<or> yi \<ge> int h then (data, stack)
              else (case (targetColor, fillColor) of ((t0, t1, t2, t3), (f0, f1, f2, f3)) \<Rightarrow>
                if \<not> colorsMatch data (uint8ClampedArray fillColor) idx \<and>
                   readU8 data idx = t0 \<and>
                   readU8 data (idx + 1) = t1 \<and>
                   readU8 data (idx + 2) = t2 \<and>
                   readU8 data (idx + 3) = t3
                then
                  (let data1 = writeU8 data idx f0;
                       data2 = writeU8 data1 (idx + 1) f1;
                       data3 = writeU8 data2 (idx + 2) f2;
                       data4 = writeU8 data3 (idx + 3) f3
                   in (data4,
                       (of_int xi, of_int (yi - 1)) # (of_int xi, of_int (yi + 1)) #
                       (of_int (xi - 1), of_int yi) # (of_int (xi + 1), of_int yi) # stack))
                else (data, stack))))"

partial_function (option) floodLoop ::
  "nat \<Rightarrow> nat \<Rightarrow> sample \<Rightarrow> color \<Rightarrow> u8 list \<times> (real \<times> real) list \<Rightarrow> u8 list option" where
  "floodLoop w h targetColor fillColor st =
     (if snd st = [] then Some (fst st)
      else floodLoop w h targetColor fillColor (loopBody w h targetColor fillColor st))"

declare floodLoop.simps [code]

definition floodFill :: "canvas \<Rightarrow> real \<Rightarrow> real \<Rightarrow> string \<Rightarrow> (error + canvas) option" where
  "floodFill ctx startX startY fillHex =
     (case getImageData ctx of
        Inl e \<Rightarrow> Some (Inl e)
      | Inr data \<Rightarrow>
          (let targetIdx = (\<lfloor>startY\<rfloor> * int (width ctx) + \<lfloor>startX\<rfloor>) * 4;
               targetColor = (readU8 data targetIdx, readU8 data (targetIdx + 1),
                              readU8 data (targetIdx + 2), readU8 data (targetIdx + 3));
               fillColor = hexToRgba fillHex
           in case (targetColor, fillColor) of ((t0, t1, t2, t3), (f0, f1, f2, f3)) \<Rightarrow>
                if t0 = Some f0 \<and> t1 = Some f1 \<and> t2 = Some f2 \<and> t3 = Some f3 then Some (Inr ctx)
                else (case floodLoop (width ctx) (height ctx) targetColor fillColor
                             (data, [(startX, startY)]) of
                        None \<Rightarrow> None
                      | Some data' \<Rightarrow> Some (Inr (putImageData ctx data')))))"

text \<open>The canvas holds one RGBA quadruple for each of its pixels.\<close>

definition wellFormed :: "canvas \<Rightarrow> bool" where
  "wellFormed ctx \<longleftrightarrow> length (pixels ctx) = 4 * width ctx * height ctx"

text \<open>A canvas of one colour, and the hexadecimal notation of a colour.\<close>

definition uniformCanvas :: "nat \<Rightarrow> nat \<Rightarrow> color \<Rightarrow> canvas" where
  "uniformCanvas w h c = \<lparr>width = w, height = h, pixels = concat (replicate (w * h) (uint8ClampedArray c))\<rparr>"

definition hexDigitChar :: "bool \<Rightarrow> int \<Rightarrow> char" where
  "hexDigitChar upper d = (if d < 10 then char_of (48 + d) else char_of ((if upper then 55 else 87) + d))"

definition hexByte :: "bool \<Rightarrow> int \<Rightarrow> string" where
  "hexByte upper v = [hexDigitChar upper (v div 16), hexDigitChar upper (v mod 16)]"

definition hexColor :: "bool \<Rightarrow> int \<Rightarrow> int \<Rightarrow> int \<Rightarrow> string" where
  "hexColor upper r g b = CHR ''#'' # hexByte upper r @ hexByte upper g @ hexByte upper b"

text \<open>
  Pixels are addressed by integer coordinates; \<open>pixelAt\<close> reads the four channels of a
  pixel as the loop does, \<open>sampleOf\<close> is a colour as four defined channel values, and
  \<open>storedColor\<close> is what reading a colour back gives once it is written into the
  clamped array. \<open>truncated\<close> is the pixel that contains a coordinate pair.
\<close>

definition inBounds :: "nat \<Rightarrow> nat \<Rightarrow> int \<times> int \<Rightarrow> bool" where
  "inBounds w h p \<longleftrightarrow> 0 \<le> fst p \<and> fst p < int w \<and> 0 \<le> snd p \<and> snd p < int h"

definition pixelIndex :: "nat \<Rightarrow> int \<times> int \<Rightarrow> int" where
  "pixelIndex w p = (snd p * int w + fst p) * 4"

definition pixelAt :: "u8 list \<Rightarrow> nat \<Rightarrow> int \<times> int \<Rightarrow> sample" where
  "pixelAt data w p =
     (readU8 data (pixelIndex w p), readU8 data (pixelIndex w p + 1),
      readU8 data (pixelIndex w p + 2), readU8 data (pixelIndex w p + 3))"

definition sampleOf :: "color \<Rightarrow> sample" where
  "sampleOf c = (case c of (r, g, b, a) \<Rightarrow> (Some r, Some g, Some b, Some a))"

definition storedColor :: "color \<Rightarrow> sample" where
  "storedColor c =
     (case c of (r, g, b, a) \<Rightarrow>
        (Some (uint (clampU8 r)), Some (uint (clampU8 g)), Some (uint (clampU8 b)),
         Some (uint (clampU8 a))))"

definition truncated :: "real \<times> real \<Rightarrow> int \<times> int" where
  "truncated q = (\<lfloor>fst q\<rfloor>, \<lfloor>snd q\<rfloor>)"

text \<open>
  The four neighbours of a pixel, and the region of a seed: the pixels inside the canvas
  that a path of neighbouring pixels, all of the seed's colour in the given buffer, joins
  to the seed.
\<close>

definition adjacent :: "int \<times> int \<Rightarrow> int \<times> int \<Rightarrow> bool" where
  "adjacent p q \<longleftrightarrow>
     q = (fst p + 1, snd p) \<or> q = (fst p - 1, snd p) \<or>
     q = (fst p, snd p + 1) \<or> q = (fst p, snd p - 1)"

inductive inRegion :: "nat \<Rightarrow> nat \<Rightarrow> u8 list \<Rightarrow> int \<times> int \<Rightarrow> int \<times> int \<Rightarrow> bool"
  for w h data seed where
  seed: "inBounds w h seed \<Longrightarrow> inRegion w h data seed seed"
| step: "inRegion w h data seed p \<Longrightarrow> adjacent p q \<Longrightarrow> inBounds w h q \<Longrightarrow>
         pixelAt data w q = pixelAt data w seed \<Longrightarrow> inRegion w h data seed q"

text \<open>
  The four writes that fill a pixel, the four coordinates pushed after them, and the
  measure of the loop: four times the number of pixels inside the canvas that do not hold
  the fill colour, plus the length of the stack.
\<close>

definition fillPixel :: "u8 list \<Rightarrow> int \<Rightarrow> color \<Rightarrow> u8 list" where
  "fillPixel data idx c =
     (case c of (f0, f1, f2, f3) \<Rightarrow>
        writeU8 (writeU8 (writeU8 (writeU8 data idx f0) (idx + 1) f1) (idx + 2) f2) (idx + 3) f3)"

definition neighbours :: "int \<times> int \<Rightarrow> (real \<times> real) list" where
  "neighbours p =
     [(of_int (fst p), of_int (snd p - 1)), (of_int (fst p), of_int (snd p + 1)),
      (of_int (fst p - 1), of_int (snd p)), (of_int (fst p + 1), of_int (snd p))]"

definition unfilled :: "nat \<Rightarrow> nat \<Rightarrow> color \<Rightarrow> u8 list \<Rightarrow> (int \<times> int) set" where
  "unfilled w h c data = {p. inBounds w h p \<and> pixelAt data w p \<noteq> storedColor c}"

definition workLeft :: "nat \<Rightarrow> nat \<Rightarrow> color \<Rightarrow> u8 list \<times> (real \<times> real) list \<Rightarrow> nat" where
  "workLeft w h c st = 4 * card (unfilled w h c (fst st)) + length (snd st)"

text \<open>
  The loop invariant for a seed inside the canvas whose colour is not the fill colour:
  the buffer keeps its length; a pixel is unchanged or lies in the region and holds the
  fill colour; a stacked pixel of the seed's colour lies in the region; the seed is filled or
  stacked; and a neighbour, of the seed's colour, of a filled pixel of the region is filled
  or stacked.
\<close>

definition fillInv ::
  "nat \<Rightarrow> nat \<Rightarrow> u8 list \<Rightarrow> color \<Rightarrow> int \<times> int \<Rightarrow> u8 list \<times> (real \<times> real) list \<Rightarrow> bool" where
  "fillInv w h d0 fc seed st \<longleftrightarrow>
     length (fst st) = length d0
     \<and> (\<forall>p. inBounds w h p \<longrightarrow>
            pixelAt (fst st) w p = pixelAt d0 w p
            \<or> (inRegion w h d0 seed p \<and> pixelAt (fst st) w p = storedColor fc))
     \<and> (\<forall>q \<in> set (snd st).
            inBounds w h (truncated q) \<and> pixelAt d0 w (truncated q) = pixelAt d0 w seed
            \<longrightarrow> inRegion w h d0 seed (truncated q))
     \<and> (pixelAt (fst st) w seed = storedColor fc \<or> seed \<in> truncated ` set (snd st))
     \<and> (\<forall>p q. inRegion w h d0 seed p \<and> pixelAt (fst st) w p = storedColor fc
              \<and> adjacent p q \<and> inBounds w h q \<and> pixelAt d0 w q = pixelAt d0 w seed
            \<longrightarrow> pixelAt (fst st) w q = storedColor fc \<or> q \<in> truncated ` set (snd st))"

section \<open>Properties of the history\<close>

lemma slice0_take: "0 \<le> e \<Longrightarrow> slice0 xs e = take (nat e) xs"
  by (simp add: slice0_def Let_def min_def)

lemma undo_fst:
  "fst (undo st) = (if currentIndex st > 0 then st\<lparr>currentIndex := currentIndex st - 1\<rparr> else st)"
  by (simp add: undo_def Let_def)

lemma undoTimes_max:
  "0 \<le> currentIndex st \<Longrightarrow> undoTimes n st = st\<lparr>currentIndex := max 0 (currentIndex st - int n)\<rparr>"
proof (induction n)
  case 0
  then show ?case by (simp add: undoTimes_def)
next
  case (Suc n)
  then have "undoTimes (Suc n) st = fst (undo (st\<lparr>currentIndex := max 0 (currentIndex st - int n)\<rparr>))"
    by (simp add: undoTimes_def)
  then show ?case
    by (simp add: undo_fst max_def)
qed

lemma evict_drop:
  "length h \<le> 20 \<Longrightarrow>
   (if length (h @ [img]) > 20 then tl (h @ [img]) else h @ [img]) = drop (length h + 1 - 20) (h @ [img])"
proof (cases "length h = 20")
  case True
  then have "length h + 1 - 20 = Suc 0" by simp
  with True show ?thesis by (cases h) (simp_all add: drop_Suc)
next
  case False
  assume "length h \<le> 20"
  with False have "length h + 1 - 20 = 0" by simp
  with False \<open>length h \<le> 20\<close> show ?thesis by simp
qed

lemma save_at_end:
  assumes "length (history st) \<le> 20" "currentIndex st = int (length (history st)) - 1"
  shows "saveCanvasState (Some img) st =
           \<lparr>history = drop (length (history st) + 1 - 20) (history st @ [img]),
            currentIndex = int (length (drop (length (history st) + 1 - 20) (history st @ [img]))) - 1\<rparr>"
proof -
  have s: "slice0 (history st) (currentIndex st + 1) = history st"
    using assms(2) by (simp add: slice0_take)
  have "saveCanvasState (Some img) st =
          (let h2 = (if length (history st @ [img]) > 20 then tl (history st @ [img]) else history st @ [img])
           in \<lparr>history = h2, currentIndex = int (length h2) - 1\<rparr>)"
    by (simp add: saveCanvasState_def s Let_def maxHistorySize_def)
  then show ?thesis
    unfolding evict_drop [OF assms(1)] Let_def .
qed

lemma recordAll_tail:
  "length (history st) \<le> 20 \<Longrightarrow> currentIndex st = int (length (history st)) - 1 \<Longrightarrow>
   recordAll st imgs =
     \<lparr>history = drop (length (history st @ imgs) - 20) (history st @ imgs),
      currentIndex = int (length (drop (length (history st @ imgs) - 20) (history st @ imgs))) - 1\<rparr>"
proof (induction imgs arbitrary: st)
  case Nil
  then show ?case by (simp add: recordAll_def)
next
  case (Cons i rest)
  define st1 where "st1 = saveCanvasState (Some i) st"
  define h1 where "h1 = drop (length (history st) + 1 - 20) (history st @ [i])"
  have st1: "st1 = \<lparr>history = h1, currentIndex = int (length h1) - 1\<rparr>"
    unfolding st1_def h1_def using Cons.prems by (rule save_at_end)
  have l1: "length (history st1) \<le> 20" using Cons.prems(1) by (simp add: st1 h1_def)
  have c1: "currentIndex st1 = int (length (history st1)) - 1" by (simp add: st1)
  have r: "recordAll st (i # rest) = recordAll st1 rest"
    by (simp add: recordAll_def st1_def)
  have d: "drop (length (h1 @ rest) - 20) (h1 @ rest)
            = drop (length (history st @ i # rest) - 20) (history st @ i # rest)"
  proof (cases "length (history st) = 20")
    case True
    then have "h1 = tl (history st) @ [i]"
      by (cases "history st") (simp_all add: h1_def drop_Suc)
    with True show ?thesis
      by (cases "history st") (simp_all add: drop_Suc)
  next
    case False
    with Cons.prems(1) have "h1 = history st @ [i]" by (simp add: h1_def)
    then show ?thesis by simp
  qed
  have hs: "history st1 = h1" by (simp add: st1)
  from Cons.IH [OF l1 c1] show ?case
    unfolding r hs d .
qed

lemma saveCanvasState_invariant:
  assumes "historyInvariant st"
  shows "historyInvariant (saveCanvasState canvas st)"
proof (cases canvas)
  case None
  with assms show ?thesis by (simp add: saveCanvasState_def)
next
  case (Some img)
  from assms have c: "- 1 \<le> currentIndex st"
    by (cases "history st = []") (simp_all add: historyInvariant_def)
  define h0 where "h0 = slice0 (history st) (currentIndex st + 1)"
  have "length h0 \<le> length (history st)"
    using c by (simp add: h0_def slice0_take)
  with assms have l0: "length h0 \<le> 20"
    by (simp add: historyInvariant_def maxHistorySize_def)
  define h2 where "h2 = (if length (h0 @ [img]) > 20 then tl (h0 @ [img]) else h0 @ [img])"
  have s: "saveCanvasState canvas st = \<lparr>history = h2, currentIndex = int (length h2) - 1\<rparr>"
    by (simp add: Some saveCanvasState_def Let_def h0_def h2_def maxHistorySize_def)
  have "h2 \<noteq> []" "length h2 \<le> 20"
    using l0 by (cases h0; simp add: h2_def)+
  then show ?thesis
    by (simp add: s historyInvariant_def maxHistorySize_def)
qed

lemma undo_invariant:
  "historyInvariant st \<Longrightarrow> historyInvariant (fst (undo st))"
  by (auto simp: undo_fst historyInvariant_def)

lemma historyStep_invariant:
  "historyInvariant st \<Longrightarrow> historyInvariant (historyStep st ev)"
proof (cases ev)
  case (Seed ctx canvas)
  assume "historyInvariant st"
  then show ?thesis
    by (simp add: Seed seedHistory_def historyInvariant_def maxHistorySize_def split: option.split)
next
  case (Record canvas)
  assume "historyInvariant st"
  then show ?thesis by (simp add: Record saveCanvasState_invariant)
next
  case Undo
  assume "historyInvariant st"
  then show ?thesis by (simp add: Undo undo_invariant)
next
  case (Clear ctx canvas)
  assume "historyInvariant st"
  then show ?thesis by (simp add: Clear clearCanvas_def saveCanvasState_invariant)
qed

lemma foldl_historyStep_invariant:
  "historyInvariant st \<Longrightarrow> historyInvariant (foldl historyStep st evs)"
  by (induction evs arbitrary: st) (simp_all add: historyStep_invariant)

text \<open>
  C2. A history state has its cursor at \<open>-1\<close> or above (the invariant of the data model,
  see C6). Recording on such a state keeps the entries up to and including the cursor,
  appends the new snapshot and puts the cursor on the last index. When that makes more than
  20 entries, the oldest one alone is dropped, and the cursor, one lower than the index the
  new entry had before, is still on the new entry.
\<close>

theorem saveCanvasState_record:
  "- 1 \<le> currentIndex st \<Longrightarrow>
   (let kept = take (nat (currentIndex st + 1)) (history st);
        st' = saveCanvasState (Some img) st
    in history st' = (if length kept + 1 > 20 then tl (kept @ [img]) else kept @ [img])
       \<and> length (history st') = (if length kept + 1 > 20 then length kept else length kept + 1)
       \<and> currentIndex st' = int (length (history st')) - 1
       \<and> currentIndex st' = (if length kept + 1 > 20 then int (length kept) - 1 else int (length kept))
       \<and> arrayGet (history st') (currentIndex st') = Some img)"
proof -
  assume a: "- 1 \<le> currentIndex st"
  define kept where "kept = take (nat (currentIndex st + 1)) (history st)"
  define st' where "st' = saveCanvasState (Some img) st"
  have s: "slice0 (history st) (currentIndex st + 1) = kept"
    using a by (simp add: slice0_take kept_def)
  have h: "history st' = (if length kept + 1 > 20 then tl (kept @ [img]) else kept @ [img])"
    by (simp add: st'_def saveCanvasState_def s Let_def maxHistorySize_def)
  have c: "currentIndex st' = int (length (history st')) - 1"
    by (simp add: st'_def saveCanvasState_def Let_def)
  have l: "length (history st') = (if length kept + 1 > 20 then length kept else length kept + 1)"
    by (simp add: h)
  have ne: "history st' \<noteq> []"
    by (cases kept) (simp_all add: h)
  have "last (history st') = img"
    by (cases kept) (simp_all add: h last_tl)
  moreover have "nat (int (length (history st')) - 1) = length (history st') - 1"
    by simp
  ultimately have g: "arrayGet (history st') (currentIndex st') = Some img"
    using ne by (simp add: c arrayGet_def last_conv_nth)
  have c2: "currentIndex st' = (if length kept + 1 > 20 then int (length kept) - 1 else int (length kept))"
    by (simp add: c l)
  from h l c c2 g show ?thesis
    unfolding Let_def kept_def [symmetric] st'_def [symmetric] by blast
qed

theorem saveCanvasState_record_witness:
  "- 1 \<le> currentIndex \<lparr>history = [''a'', ''b'', ''c''], currentIndex = 1\<rparr>
   \<and> saveCanvasState (Some ''d'') \<lparr>history = [''a'', ''b'', ''c''], currentIndex = 1\<rparr>
       = \<lparr>history = [''a'', ''b'', ''d''], currentIndex = 2\<rparr>"
  using saveCanvasState_record [of "\<lparr>history = [''a'', ''b'', ''c''], currentIndex = 1\<rparr>" "''d''"]
  by (simp add: Let_def)

text \<open>
  C3. \<open>undo\<close> changes nothing and asks for no restore when the cursor is at most 0.
  Otherwise it lowers the cursor by one, keeps the entries, and asks for a restore of
  \<open>history[cursor - 1]\<close>, which is the entry at the new cursor whenever the cursor was
  within the entries. \<open>canUndo\<close> holds exactly when the cursor is above 0.
\<close>

theorem undo_canUndo:
  "undo st =
     (if currentIndex st \<le> 0 then (st, NoRestore)
      else (st\<lparr>currentIndex := currentIndex st - 1\<rparr>,
            Restore (arrayGet (history st) (currentIndex st - 1))))
   \<and> history (fst (undo st)) = history st
   \<and> (0 < currentIndex st \<and> currentIndex st \<le> int (length (history st)) \<longrightarrow>
        snd (undo st) = Restore (Some (history st ! nat (currentIndex st - 1))))
   \<and> (canUndo st \<longleftrightarrow> currentIndex st > 0)"
  by (simp add: undo_def canUndo_def Let_def arrayGet_def)

theorem undo_canUndo_witness:
  "0 < currentIndex \<lparr>history = [''a'', ''b'', ''c''], currentIndex = 2\<rparr>
   \<and> currentIndex \<lparr>history = [''a'', ''b'', ''c''], currentIndex = 2\<rparr>
        \<le> int (length (history \<lparr>history = [''a'', ''b'', ''c''], currentIndex = 2\<rparr>))
   \<and> undo \<lparr>history = [''a'', ''b'', ''c''], currentIndex = 2\<rparr>
        = (\<lparr>history = [''a'', ''b'', ''c''], currentIndex = 1\<rparr>, Restore (Some ''b''))
   \<and> undo \<lparr>history = [''a'', ''b'', ''c''], currentIndex = 0\<rparr>
        = (\<lparr>history = [''a'', ''b'', ''c''], currentIndex = 0\<rparr>, NoRestore)"
  using undo_canUndo [of "\<lparr>history = [''a'', ''b'', ''c''], currentIndex = 2\<rparr>"]
        undo_canUndo [of "\<lparr>history = [''a'', ''b'', ''c''], currentIndex = 0\<rparr>"]
  by (simp add: arrayGet_def)

text \<open>
  C4. Recording more than 20 snapshots on the freshly seeded history leaves exactly the
  last 20 of them, the cursor on index 19. Nineteen undos bring the cursor to index 0 (the
  nineteenth asks for the oldest retained snapshot), and every further undo changes
  nothing.
\<close>

theorem record_many_then_undo:
  "length imgs > 20 \<Longrightarrow>
   (let st = recordAll (seedHistory True (Some blank) initialHistoryState) imgs
    in history st = drop (length imgs - 20) imgs
       \<and> length (history st) = 20
       \<and> currentIndex st = 19
       \<and> undoTimes 19 st = st\<lparr>currentIndex := 0\<rparr>
       \<and> snd (undo (undoTimes 18 st)) = Restore (Some (imgs ! (length imgs - 20)))
       \<and> (\<forall>k. undoTimes (19 + k) st = st\<lparr>currentIndex := 0\<rparr>)
       \<and> undo (undoTimes 19 st) = (undoTimes 19 st, NoRestore))"
proof -
  assume n: "length imgs > 20"
  define st where "st = recordAll (seedHistory True (Some blank) initialHistoryState) imgs"
  have seed: "seedHistory True (Some blank) initialHistoryState = \<lparr>history = [blank], currentIndex = 0\<rparr>"
    by (simp add: seedHistory_def)
  have "st = \<lparr>history = drop (length ([blank] @ imgs) - 20) ([blank] @ imgs),
              currentIndex = int (length (drop (length ([blank] @ imgs) - 20) ([blank] @ imgs))) - 1\<rparr>"
    unfolding st_def seed using recordAll_tail [of "\<lparr>history = [blank], currentIndex = 0\<rparr>" imgs]
    by simp
  moreover have "drop (length ([blank] @ imgs) - 20) ([blank] @ imgs) = drop (length imgs - 20) imgs"
    using n by (simp add: drop_Cons')
  ultimately have st: "st = \<lparr>history = drop (length imgs - 20) imgs, currentIndex = 19\<rparr>"
    using n by simp
  have h: "history st = drop (length imgs - 20) imgs" and l: "length (history st) = 20"
    and c: "currentIndex st = 19"
    using n by (simp_all add: st)
  have u: "undoTimes (19 + k) st = st\<lparr>currentIndex := 0\<rparr>" for k
    using undoTimes_max [of st "19 + k"] by (simp add: c)
  have u19: "undoTimes 19 st = st\<lparr>currentIndex := 0\<rparr>"
    using u [of 0] by simp
  have u18: "undoTimes 18 st = st\<lparr>currentIndex := 1\<rparr>"
    using undoTimes_max [of st 18] by (simp add: c)
  have r: "snd (undo (undoTimes 18 st)) = Restore (Some (imgs ! (length imgs - 20)))"
    using n by (simp add: u18 undo_def Let_def arrayGet_def h)
  have e: "undo (undoTimes 19 st) = (undoTimes 19 st, NoRestore)"
    by (simp add: u19 undo_def)
  from h l c u19 r u e show ?thesis
    unfolding Let_def st_def [symmetric] by blast
qed

theorem record_many_then_undo_witness:
  "length (map (\<lambda>n. replicate n CHR ''x'') [1..<22]) > 20
   \<and> length (history (recordAll (seedHistory True (Some []) initialHistoryState)
                (map (\<lambda>n. replicate n CHR ''x'') [1..<22]))) = 20
   \<and> currentIndex (recordAll (seedHistory True (Some []) initialHistoryState)
                (map (\<lambda>n. replicate n CHR ''x'') [1..<22])) = 19
   \<and> currentIndex (undoTimes 19 (recordAll (seedHistory True (Some []) initialHistoryState)
                (map (\<lambda>n. replicate n CHR ''x'') [1..<22]))) = 0"
proof -
  have l: "length (map (\<lambda>n. replicate n CHR ''x'') [1..<22]) > 20" by simp
  from record_many_then_undo [OF l, of "[]"] l show ?thesis
    unfolding Let_def by simp
qed

text \<open>
  C6. The invariant holds in the initial state, each of seeding, recording, undoing and
  clearing preserves it, and so it holds after every sequence of these operations.
\<close>

theorem historyInvariant_preserved:
  "historyInvariant initialHistoryState
   \<and> (historyInvariant st \<longrightarrow> historyInvariant (seedHistory ctx canvas st))
   \<and> (historyInvariant st \<longrightarrow> historyInvariant (saveCanvasState canvas st))
   \<and> (historyInvariant st \<longrightarrow> historyInvariant (fst (undo st)))
   \<and> (historyInvariant st \<longrightarrow> historyInvariant (clearCanvas ctx canvas st))
   \<and> historyInvariant (foldl historyStep initialHistoryState evs)"
proof -
  have i: "historyInvariant initialHistoryState"
    by (simp add: historyInvariant_def initialHistoryState_def)
  have "historyInvariant st \<longrightarrow> historyInvariant (seedHistory ctx canvas st)"
    using historyStep_invariant [of st "Seed ctx canvas"] by simp
  moreover have "historyInvariant st \<longrightarrow> historyInvariant (clearCanvas ctx canvas st)"
    using historyStep_invariant [of st "Clear ctx canvas"] by simp
  ultimately show ?thesis
    using i foldl_historyStep_invariant [OF i] saveCanvasState_invariant undo_invariant
    by blast
qed

theorem historyInvariant_preserved_witness:
  "historyInvariant \<lparr>history = [''a'', ''b''], currentIndex = 1\<rparr>
   \<and> historyInvariant (seedHistory True (Some ''c'') \<lparr>history = [''a'', ''b''], currentIndex = 1\<rparr>)
   \<and> historyInvariant (saveCanvasState (Some ''c'') \<lparr>history = [''a'', ''b''], currentIndex = 1\<rparr>)
   \<and> historyInvariant (fst (undo \<lparr>history = [''a'', ''b''], currentIndex = 1\<rparr>))
   \<and> historyInvariant (clearCanvas True (Some ''c'') \<lparr>history = [''a'', ''b''], currentIndex = 1\<rparr>)
   \<and> historyInvariant (foldl historyStep initialHistoryState
        [Seed True (Some ''s''), Record (Some ''a''), Undo, Clear True (Some ''e'')])"
proof -
  have h: "historyInvariant \<lparr>history = [''a'', ''b''], currentIndex = 1\<rparr>"
    by (simp add: historyInvariant_def maxHistorySize_def)
  show ?thesis
    using h historyInvariant_preserved
      [where st = "\<lparr>history = [''a'', ''b''], currentIndex = 1\<rparr>" and ctx = True
         and canvas = "Some ''c''"
         and evs = "[Seed True (Some ''s''), Record (Some ''a''), Undo, Clear True (Some ''e'')]"]
    by blast
qed

text \<open>
  C9. With the context and the canvas there, seeding gives the single entry at cursor 0,
  whatever the state was; \<open>canUndo\<close> is false then, and true after one recording.
\<close>

theorem seedHistory_canUndo:
  "seedHistory True (Some blank) st = \<lparr>history = [blank], currentIndex = 0\<rparr>
   \<and> \<not> canUndo (seedHistory True (Some blank) st)
   \<and> saveCanvasState (Some img) (seedHistory True (Some blank) st)
        = \<lparr>history = [blank, img], currentIndex = 1\<rparr>
   \<and> canUndo (saveCanvasState (Some img) (seedHistory True (Some blank) st))"
  by (simp add: seedHistory_def canUndo_def saveCanvasState_def slice0_def Let_def maxHistorySize_def)

section \<open>Properties of the colour parser\<close>

lemma and255_uint: "uint ((x::32 word) AND 255) = uint x mod 256"
proof -
  have "(255 :: 32 word) = mask 8" by (simp add: mask_eq_exp_minus_1)
  then have "x AND 255 = take_bit 8 x" by (simp add: take_bit_eq_mask) 
  then show ?thesis by (simp add: unsigned_take_bit_eq take_bit_int_def)
qed

lemma sint_small: "uint (w::32 word) < 2 ^ 31 \<Longrightarrow> sint w = uint w"
proof -
  assume a: "uint w < 2 ^ 31"
  have "- (2 ^ 31) \<le> uint w" by (rule order_trans [of _ 0]) simp_all
  then have "signed_take_bit 31 (uint w) = uint w"
    using a by (rule signed_take_bit_int_eq_self)
  then show ?thesis by (simp add: sint_uint)
qed

lemma and255_sint: "sint ((x::32 word) AND 255) = uint x mod 256"
proof -
  have "uint (x AND 255) < 256" by (simp add: and255_uint)
  then have "uint (x AND 255) < 2 ^ 31" by simp
  then have "sint (x AND 255) = uint (x AND 255)" by (rule sint_small)
  then show ?thesis by (simp add: and255_uint)
qed

lemma mod256_shift: "(a - 256 * c) mod 256 = (a::int) mod 256"
proof -
  have "(a - 256 * c) mod 256 = (a + 256 * (- c)) mod 256" by simp
  also have "\<dots> = a mod 256" by (rule mod_mult_self2)
  finally show ?thesis .
qed

lemma uint_sint_mod: "uint (w :: 32 word) mod 256 = sint w mod 256"
proof -
  have "uint w < 2 ^ 32" using uint_lt2p [of w] by simp
  then have "uint w mod 2 ^ 32 = uint w" by simp
  then have "sint w = uint w - 2 ^ 32 * of_bool (bit (uint w) 31)"
    by (simp add: sint_uint signed_take_bit_eq_take_bit_minus take_bit_int_def)
  also have "\<dots> mod 256 = uint w mod 256"
  proof -
    have "(uint w - 256 * (16777216 * of_bool (bit (uint w) 31))) mod 256 = uint w mod 256"
      by (rule mod256_shift)
    then show ?thesis by simp
  qed
  finally show ?thesis by simp
qed

lemma channel_int:
  "sint (signed_drop_bit k (word_of_int v :: 32 word) AND 255) = (signed_take_bit 31 v div 2 ^ k) mod 256"
  by (simp add: and255_sint uint_sint_mod sint_signed_drop_bit_eq drop_bit_eq_div sint_sbintrunc')

lemma channel_int0:
  "sint ((word_of_int v :: 32 word) AND 255) = signed_take_bit 31 v mod 256"
  by (simp add: and255_sint uint_sint_mod sint_sbintrunc')

lemma hexDigitValue_hexDigitChar:
  "0 \<le> d \<Longrightarrow> d < 16 \<Longrightarrow> hexDigitValue (hexDigitChar u d) = Some d"
  by (simp add: hexDigitValue_def hexDigitChar_def Let_def of_char_of)

lemma hexDigit_not_special:
  assumes "hexDigitValue c = Some d"
  shows "\<not> isWhiteSpace c" "c \<noteq> CHR ''-''" "c \<noteq> CHR ''+''" "c \<noteq> CHR ''x''" "c \<noteq> CHR ''X''"
    "c \<noteq> CHR ''#''"
  using assms
  by (auto simp: hexDigitValue_def isWhiteSpace_def Let_def split: if_splits)

lemma hexDigitValue_range:
  "hexDigitValue c = Some d \<Longrightarrow> 0 \<le> d \<and> d < 16"
  by (auto simp: hexDigitValue_def Let_def split: if_splits)

lemma roundToDouble_small: "n < 2 ^ 53 \<Longrightarrow> roundToDouble n = n"
  by (simp add: roundToDouble_def)

lemma parseInt16_six:
  assumes "hexDigitValue c1 = Some d1" "hexDigitValue c2 = Some d2" "hexDigitValue c3 = Some d3"
    "hexDigitValue c4 = Some d4" "hexDigitValue c5 = Some d5" "hexDigitValue c6 = Some d6"
  shows "parseInt16 [c1, c2, c3, c4, c5, c6]
           = Some ((16 * d1 + d2) * 65536 + (16 * d3 + d4) * 256 + (16 * d5 + d6))"
proof -
  note sp = hexDigit_not_special [OF assms(1)] hexDigit_not_special [OF assms(2)]
  have z: "hexDigits [c1, c2, c3, c4, c5, c6] = [d1, d2, d3, d4, d5, d6]"
    by (simp add: assms)
  have r: "0 \<le> d1 \<and> d1 < 16" "0 \<le> d2 \<and> d2 < 16" "0 \<le> d3 \<and> d3 < 16"
    "0 \<le> d4 \<and> d4 < 16" "0 \<le> d5 \<and> d5 < 16" "0 \<le> d6 \<and> d6 < 16"
    using assms by (simp_all add: hexDigitValue_range)
  define v where "v = (16 * d1 + d2) * 65536 + (16 * d3 + d4) * 256 + (16 * d5 + d6)"
  have f: "foldl (\<lambda>acc d. 16 * acc + d) 0 [d1, d2, d3, d4, d5, d6] = v"
    by (simp add: v_def)
  have "v < 16777216" using r by (simp add: v_def)
  then have "v < 2 ^ 53" by simp
  then have rd: "roundToDouble v = v" by (rule roundToDouble_small)
  show ?thesis
    unfolding v_def [symmetric]
    by (simp add: parseInt16_def sp Let_def z f rd del: hexDigits.simps foldl.simps)
qed

lemma hexToRgba_range:
  "hexToRgba hex = (r, g, b, a) \<Longrightarrow>
   0 \<le> r \<and> r \<le> 255 \<and> 0 \<le> g \<and> g \<le> 255 \<and> 0 \<le> b \<and> b \<le> 255 \<and> a = 255"
  by (auto simp: hexToRgba_def Let_def and255_sint)

lemma hexByte_digits:
  assumes "0 \<le> v" "v \<le> 255"
  shows "\<exists>c1 c2. hexByte u v = [c1, c2] \<and> hexDigitValue c1 = Some (v div 16)
          \<and> hexDigitValue c2 = Some (v mod 16)"
proof -
  have "0 \<le> v div 16" "v div 16 < 16" using assms by simp_all
  then have "hexDigitValue (hexDigitChar u (v div 16)) = Some (v div 16)"
    by (rule hexDigitValue_hexDigitChar)
  moreover have "hexDigitValue (hexDigitChar u (v mod 16)) = Some (v mod 16)"
    by (rule hexDigitValue_hexDigitChar) simp_all
  ultimately show ?thesis by (simp add: hexByte_def)
qed

lemma channels_of_value:
  assumes "0 \<le> r" "r \<le> 255" "0 \<le> g" "g \<le> 255" "0 \<le> b" "b \<le> 255"
    and v: "v = r * 65536 + g * 256 + b"
  shows "sint (signed_drop_bit 16 (word_of_int v :: 32 word) AND 255) = r"
    and "sint (signed_drop_bit 8 (word_of_int v :: 32 word) AND 255) = g"
    and "sint ((word_of_int v :: 32 word) AND 255) = b"
proof -
  have v0: "0 \<le> v" using assms by simp
  have "v < 16777216" using assms by simp
  then have v1: "v < 2 ^ 31" by simp
  have "- (2 ^ 31) \<le> v" using v0 by simp
  then have s: "signed_take_bit 31 v = v" using v1 by (rule signed_take_bit_int_eq_self)
  have "(v div 2 ^ 16) mod 256 = r" using assms by simp
  then show "sint (signed_drop_bit 16 (word_of_int v :: 32 word) AND 255) = r"
    unfolding channel_int s .
  have "v div 2 ^ 8 = r * 256 + g" using assms by simp
  then have "(v div 2 ^ 8) mod 256 = g" using assms by simp
  then show "sint (signed_drop_bit 8 (word_of_int v :: 32 word) AND 255) = g"
    unfolding channel_int s .
  have "v = b + 256 * (r * 256 + g)" using v by simp
  then have "v mod 256 = b mod 256" by (simp only: mod_mult_self2)
  then have "v mod 256 = b" using assms by simp
  then show "sint ((word_of_int v :: 32 word) AND 255) = b"
    unfolding channel_int0 s .
qed

text \<open>
  C10. For channel values \<open>r\<close>, \<open>g\<close>, \<open>b\<close> between 0 and 255, \<open>hexToRgba\<close>
  on the string \<open>#RRGGBB\<close>, two hexadecimal digits a channel in upper or in lower case,
  returns \<open>(r, g, b, 255)\<close>.
\<close>

theorem hexToRgba_hexColor:
  assumes "0 \<le> r \<and> r \<le> 255" "0 \<le> g \<and> g \<le> 255" "0 \<le> b \<and> b \<le> 255"
  shows "hexToRgba (hexColor upper r g b) = (r, g, b, 255)"
proof -
  obtain c1 c2 where r: "hexByte upper r = [c1, c2]" "hexDigitValue c1 = Some (r div 16)"
    "hexDigitValue c2 = Some (r mod 16)"
    using hexByte_digits [of r upper] assms(1) by blast
  obtain c3 c4 where g: "hexByte upper g = [c3, c4]" "hexDigitValue c3 = Some (g div 16)"
    "hexDigitValue c4 = Some (g mod 16)"
    using hexByte_digits [of g upper] assms(2) by blast
  obtain c5 c6 where b: "hexByte upper b = [c5, c6]" "hexDigitValue c5 = Some (b div 16)"
    "hexDigitValue c6 = Some (b mod 16)"
    using hexByte_digits [of b upper] assms(3) by blast
  define v where "v = r * 65536 + g * 256 + b"
  have clean: "replaceHash (hexColor upper r g b) = [c1, c2, c3, c4, c5, c6]"
    by (simp add: hexColor_def r g b)
  have p: "parseInt16 [c1, c2, c3, c4, c5, c6] = Some v"
    using parseInt16_six [OF r(2) r(3) g(2) g(3) b(2) b(3)] by (simp add: v_def)
  have ch: "sint (signed_drop_bit 16 (word_of_int v :: 32 word) AND 255) = r"
    "sint (signed_drop_bit 8 (word_of_int v :: 32 word) AND 255) = g"
    "sint ((word_of_int v :: 32 word) AND 255) = b"
    using assms channels_of_value [of r g b v] by (simp_all add: v_def)
  show ?thesis
    by (simp add: hexToRgba_def clean p toInt32_def Let_def ch)
qed

theorem hexToRgba_hexColor_witness:
  "(0::int) \<le> 18 \<and> (18::int) \<le> 255 \<and> (0::int) \<le> 171 \<and> (171::int) \<le> 255
   \<and> (0::int) \<le> 205 \<and> (205::int) \<le> 255
   \<and> hexColor True 18 171 205 = ''#12ABCD'' \<and> hexColor False 18 171 205 = ''#12abcd''
   \<and> hexToRgba ''#12ABCD'' = (18, 171, 205, 255)
   \<and> hexToRgba ''#12abcd'' = (18, 171, 205, 255)"
proof -
  have u: "hexColor True 18 171 205 = ''#12ABCD''"
    by (simp add: hexColor_def hexByte_def hexDigitChar_def char_of_def)
  have l: "hexColor False 18 171 205 = ''#12abcd''"
    by (simp add: hexColor_def hexByte_def hexDigitChar_def char_of_def)
  show ?thesis
    using hexToRgba_hexColor [of 18 171 205 True] hexToRgba_hexColor [of 18 171 205 False]
    by (simp add: u l)
qed

section \<open>Properties of flood fill\<close>

lemma length_writeU8 [simp]: "length (writeU8 a i v) = length a"
  by (simp add: writeU8_def)

lemma readU8_writeU8:
  "readU8 (writeU8 a i v) j =
     (if j = i \<and> 0 \<le> i \<and> i < int (length a) then Some (uint (clampU8 v)) else readU8 a j)"
  by (auto simp: readU8_def writeU8_def arrayGet_def nat_eq_iff)

lemma length_fillPixel [simp]: "length (fillPixel data idx c) = length data"
  by (cases c) (simp add: fillPixel_def)

lemma readU8_fillPixel_other:
  "j < idx \<or> idx + 3 < j \<Longrightarrow> readU8 (fillPixel data idx c) j = readU8 data j"
  by (cases c) (auto simp: fillPixel_def readU8_writeU8)

lemma readU8_fillPixel_same:
  assumes "0 \<le> idx" "idx + 3 < int (length data)"
  shows "readU8 (fillPixel data idx (f0, f1, f2, f3)) idx = Some (uint (clampU8 f0))"
    and "readU8 (fillPixel data idx (f0, f1, f2, f3)) (idx + 1) = Some (uint (clampU8 f1))"
    and "readU8 (fillPixel data idx (f0, f1, f2, f3)) (idx + 2) = Some (uint (clampU8 f2))"
    and "readU8 (fillPixel data idx (f0, f1, f2, f3)) (idx + 3) = Some (uint (clampU8 f3))"
  using assms by (simp_all add: fillPixel_def readU8_writeU8)

lemma inBounds_finite: "finite {p. inBounds w h p}"
proof -
  have "{p. inBounds w h p} \<subseteq> {0..<int w} \<times> {0..<int h}"
    by (auto simp: inBounds_def)
  then show ?thesis by (rule finite_subset) simp
qed

lemma inBounds_index:
  assumes "inBounds w h p"
  shows "0 \<le> pixelIndex w p" and "pixelIndex w p + 3 < 4 * int w * int h"
proof -
  obtain x y where p: "p = (x, y)" by (cases p)
  from assms have b: "0 \<le> x" "x < int w" "0 \<le> y" "y < int h"
    by (simp_all add: p inBounds_def)
  have "0 \<le> y * int w" using b by simp
  then show "0 \<le> pixelIndex w p" using b by (simp add: p pixelIndex_def)
  have "y + 1 \<le> int h" using b by simp
  then have "(y + 1) * int w \<le> int h * int w"
    by (rule mult_right_mono) simp
  then have "y * int w + x < int h * int w" using b by (simp add: algebra_simps)
  then show "pixelIndex w p + 3 < 4 * int w * int h"
    by (simp add: p pixelIndex_def algebra_simps)
qed

lemma pixelIndex_inj:
  assumes "inBounds w h p" "inBounds w h q" "pixelIndex w p = pixelIndex w q"
  shows "p = q"
proof -
  obtain x y where p: "p = (x, y)" by (cases p)
  obtain x' y' where q: "q = (x', y')" by (cases q)
  from assms(1) have b: "0 \<le> x" "x < int w" by (simp_all add: p inBounds_def)
  from assms(2) have b': "0 \<le> x'" "x' < int w" by (simp_all add: q inBounds_def)
  from assms(3) have e: "x + y * int w = x' + y' * int w"
    by (simp add: p q pixelIndex_def algebra_simps)
  have w0: "int w \<noteq> 0" using b by auto
  have "(x + y * int w) mod int w = x" using b by simp
  moreover have "(x' + y' * int w) mod int w = x'" using b' by simp
  ultimately have x: "x = x'" using e by simp
  have "(x + y * int w) div int w = y" using b w0 by simp
  moreover have "(x' + y' * int w) div int w = y'" using b' w0 by simp
  ultimately have "y = y'" using e by simp
  with x show ?thesis by (simp add: p q)
qed

lemma pixelIndex_apart:
  assumes "inBounds w h p" "inBounds w h q" "p \<noteq> q"
  shows "pixelIndex w p + 3 < pixelIndex w q \<or> pixelIndex w q + 3 < pixelIndex w p"
proof -
  have "pixelIndex w p \<noteq> pixelIndex w q"
    using pixelIndex_inj [OF assms(1,2)] assms(3) by blast
  moreover have "pixelIndex w p = 4 * (snd p * int w + fst p)"
    "pixelIndex w q = 4 * (snd q * int w + fst q)"
    by (simp_all add: pixelIndex_def)
  ultimately show ?thesis by arith
qed

lemma pixelAt_fillPixel_same:
  assumes "length data = 4 * w * h" "inBounds w h q"
  shows "pixelAt (fillPixel data (pixelIndex w q) c) w q = storedColor c"
proof -
  obtain f0 f1 f2 f3 where c: "c = (f0, f1, f2, f3)" by (cases c)
  have "0 \<le> pixelIndex w q" "pixelIndex w q + 3 < int (length data)"
    using inBounds_index [OF assms(2)] assms(1) by simp_all
  then show ?thesis
    by (simp add: pixelAt_def storedColor_def c readU8_fillPixel_same)
qed

lemma pixelAt_fillPixel_other:
  assumes "inBounds w h q" "inBounds w h p" "p \<noteq> q"
  shows "pixelAt (fillPixel data (pixelIndex w q) c) w p = pixelAt data w p"
proof -
  have "pixelIndex w p + 3 < pixelIndex w q \<or> pixelIndex w q + 3 < pixelIndex w p"
    using assms(2) assms(1) assms(3) by (rule pixelIndex_apart)
  then show ?thesis
    by (auto simp: pixelAt_def readU8_fillPixel_other)
qed

lemma colorsMatch_pixelAt:
  "colorsMatch data (uint8ClampedArray c) (pixelIndex w q) \<longleftrightarrow> pixelAt data w q = storedColor c"
  by (cases c)
     (simp add: colorsMatch_def uint8ClampedArray_def pixelAt_def storedColor_def readU8_def
        arrayGet_def)

lemma loopBody_outside:
  "\<not> inBounds w h (truncated q) \<Longrightarrow> loopBody w h tc fc (data, q # stack) = (data, stack)"
  by (cases q) (auto simp: loopBody_def truncated_def inBounds_def Let_def)

lemma loopBody_inside:
  assumes "inBounds w h (truncated q)"
  shows "loopBody w h tc fc (data, q # stack) =
           (if pixelAt data w (truncated q) \<noteq> storedColor fc \<and> pixelAt data w (truncated q) = tc
            then (fillPixel data (pixelIndex w (truncated q)) fc, neighbours (truncated q) @ stack)
            else (data, stack))"
proof -
  obtain x y where q: "q = (x, y)" by (cases q)
  obtain t0 t1 t2 t3 where tc: "tc = (t0, t1, t2, t3)" by (cases tc)
  obtain f0 f1 f2 f3 where fc: "fc = (f0, f1, f2, f3)" by (cases fc)
  have b: "\<not> \<lfloor>x\<rfloor> < 0" "\<not> int w \<le> \<lfloor>x\<rfloor>" "\<not> \<lfloor>y\<rfloor> < 0" "\<not> int h \<le> \<lfloor>y\<rfloor>"
    using assms by (auto simp: inBounds_def truncated_def q)
  have m: "pixelAt data w (truncated q) \<noteq> storedColor fc
            \<longleftrightarrow> \<not> colorsMatch data (uint8ClampedArray fc) (pixelIndex w (truncated q))"
    by (simp add: colorsMatch_pixelAt)
  show ?thesis
    unfolding m
    using b
    by (simp add: loopBody_def Let_def q tc fc pixelIndex_def truncated_def fillPixel_def
          neighbours_def pixelAt_def)
qed

lemma loopBody_fill:
  assumes "inBounds w h (truncated q)" "pixelAt data w (truncated q) \<noteq> storedColor fc"
    "pixelAt data w (truncated q) = tc"
  shows "loopBody w h tc fc (data, q # stack) =
           (fillPixel data (pixelIndex w (truncated q)) fc, neighbours (truncated q) @ stack)"
proof -
  have "pixelAt data w (truncated q) \<noteq> storedColor fc \<and> pixelAt data w (truncated q) = tc"
    using assms(2,3) by (rule conjI)
  then show ?thesis
    unfolding loopBody_inside [OF assms(1)] by (rule if_P)
qed

lemma loopBody_skip:
  assumes "inBounds w h (truncated q)"
    "\<not> (pixelAt data w (truncated q) \<noteq> storedColor fc \<and> pixelAt data w (truncated q) = tc)"
  shows "loopBody w h tc fc (data, q # stack) = (data, stack)"
  unfolding loopBody_inside [OF assms(1)] using assms(2) by (rule if_not_P)

lemma unfilled_finite: "finite (unfilled w h c data)"
  by (rule finite_subset [OF _ inBounds_finite [of w h]]) (auto simp: unfilled_def)

lemma unfilled_card: "card (unfilled w h c data) \<le> w * h"
proof -
  have "unfilled w h c data \<subseteq> {0..<int w} \<times> {0..<int h}"
    by (auto simp: unfilled_def inBounds_def)
  then have "card (unfilled w h c data) \<le> card ({0..<int w} \<times> {0..<int h})"
    by (rule card_mono [rotated]) simp
  then show ?thesis by (simp add: card_cartesian_product)
qed

lemma unfilled_fillPixel:
  assumes "length data = 4 * w * h" "inBounds w h q"
  shows "unfilled w h c (fillPixel data (pixelIndex w q) c) = unfilled w h c data - {q}"
proof -
  have same: "pixelAt (fillPixel data (pixelIndex w q) c) w q = storedColor c"
    using assms by (rule pixelAt_fillPixel_same)
  have "p \<in> unfilled w h c (fillPixel data (pixelIndex w q) c) \<longleftrightarrow> p \<in> unfilled w h c data - {q}"
    for p
  proof (cases "p = q")
    case True
    then show ?thesis by (simp add: unfilled_def same)
  next
    case False
    show ?thesis
    proof (cases "inBounds w h p")
      case True
      with False show ?thesis
        by (simp add: unfilled_def pixelAt_fillPixel_other [OF assms(2)])
    next
      case False
      then show ?thesis by (simp add: unfilled_def)
    qed
  qed
  then show ?thesis by blast
qed

lemma workLeft_loopBody:
  assumes "length data = 4 * w * h"
  shows "Suc (workLeft w h fc (loopBody w h tc fc (data, q # stack))) = workLeft w h fc (data, q # stack)"
proof (cases "inBounds w h (truncated q)")
  case False
  then show ?thesis by (simp add: loopBody_outside workLeft_def)
next
  case True
  show ?thesis
  proof (cases "pixelAt data w (truncated q) \<noteq> storedColor fc \<and> pixelAt data w (truncated q) = tc")
    case False
    have "loopBody w h tc fc (data, q # stack) = (data, stack)"
      using True False by (rule loopBody_skip)
    then show ?thesis by (simp add: workLeft_def)
  next
    case fill: True
    have m: "truncated q \<in> unfilled w h fc data"
      using True conjunct1 [OF fill] by (simp add: unfilled_def)
    then have "unfilled w h fc data \<noteq> {}" by blast
    then have pos: "0 < card (unfilled w h fc data)"
      using unfilled_finite [of w h fc data] by (simp add: card_gt_0_iff)
    have c: "card (unfilled w h fc data - {truncated q}) = card (unfilled w h fc data) - 1"
      using m unfilled_finite [of w h fc data] by simp
    have l: "loopBody w h tc fc (data, q # stack)
        = (fillPixel data (pixelIndex w (truncated q)) fc, neighbours (truncated q) @ stack)"
      using True conjunct1 [OF fill] conjunct2 [OF fill] by (rule loopBody_fill)
    have "workLeft w h fc (loopBody w h tc fc (data, q # stack))
        = 4 * (card (unfilled w h fc data) - 1) + (4 + length stack)"
      unfolding l workLeft_def fst_conv snd_conv unfilled_fillPixel [OF assms True] c
      by (simp add: neighbours_def)
    moreover have "workLeft w h fc (data, q # stack) = 4 * card (unfilled w h fc data) + Suc (length stack)"
      by (simp add: workLeft_def)
    ultimately show ?thesis using pos by arith
  qed
qed

lemma length_loopBody:
  "length (fst (loopBody w h tc fc (data, q # stack))) = length data"
  by (cases "inBounds w h (truncated q)") (simp_all add: loopBody_outside loopBody_inside)

lemma floodLoop_Nil: "floodLoop w h tc fc (data, []) = Some data"
  by (subst floodLoop.simps) simp

lemma floodLoop_Cons:
  "floodLoop w h tc fc (data, q # stack) = floodLoop w h tc fc (loopBody w h tc fc (data, q # stack))"
  by (subst floodLoop.simps) simp

lemma floodLoop_rule:
  assumes step: "\<And>data q stack. I (data, q # stack) \<Longrightarrow>
            I (loopBody w h tc fc (data, q # stack)) \<and>
            Suc (workLeft w h fc (loopBody w h tc fc (data, q # stack))) = workLeft w h fc (data, q # stack)"
    and init: "I st"
  shows "\<exists>n \<le> workLeft w h fc st.
           snd ((loopBody w h tc fc ^^ n) st) = [] \<and> I ((loopBody w h tc fc ^^ n) st) \<and>
           floodLoop w h tc fc st = Some (fst ((loopBody w h tc fc ^^ n) st))"
  using init
proof (induction "workLeft w h fc st" arbitrary: st rule: less_induct)
  case less
  obtain data stack where st: "st = (data, stack)" by (cases st)
  show ?case
  proof (cases stack)
    case Nil
    have "snd ((loopBody w h tc fc ^^ 0) st) = [] \<and> I ((loopBody w h tc fc ^^ 0) st) \<and>
           floodLoop w h tc fc st = Some (fst ((loopBody w h tc fc ^^ 0) st))"
      using less.prems by (simp add: st Nil floodLoop_Nil)
    then show ?thesis by blast
  next
    case (Cons q rest)
    define st' where "st' = loopBody w h tc fc st"
    have s: "I st'" "Suc (workLeft w h fc st') = workLeft w h fc st"
      using step [of data q rest] less.prems by (simp_all add: st'_def st Cons)
    then have "workLeft w h fc st' < workLeft w h fc st" by simp
    from less.hyps [OF this s(1)]
    obtain n where n: "n \<le> workLeft w h fc st'" "snd ((loopBody w h tc fc ^^ n) st') = []"
      "I ((loopBody w h tc fc ^^ n) st')"
      "floodLoop w h tc fc st' = Some (fst ((loopBody w h tc fc ^^ n) st'))"
      by blast
    have f: "(loopBody w h tc fc ^^ Suc n) st = (loopBody w h tc fc ^^ n) st'"
      by (simp add: st'_def funpow_swap1)
    have l: "floodLoop w h tc fc st = floodLoop w h tc fc st'"
      by (simp add: st'_def st Cons floodLoop_Cons)
    have "Suc n \<le> workLeft w h fc st" using n(1) s(2) by simp
    moreover have "snd ((loopBody w h tc fc ^^ Suc n) st) = [] \<and>
        I ((loopBody w h tc fc ^^ Suc n) st) \<and>
        floodLoop w h tc fc st = Some (fst ((loopBody w h tc fc ^^ Suc n) st))"
      unfolding f l using n by simp
    ultimately show ?thesis by blast
  qed
qed

lemma floodLoop_total:
  assumes "length data = 4 * w * h"
  shows "\<exists>n \<le> workLeft w h fc (data, stack).
           snd ((loopBody w h tc fc ^^ n) (data, stack)) = [] \<and>
           length (fst ((loopBody w h tc fc ^^ n) (data, stack))) = 4 * w * h \<and>
           floodLoop w h tc fc (data, stack) = Some (fst ((loopBody w h tc fc ^^ n) (data, stack)))"
proof -
  have "\<exists>n \<le> workLeft w h fc (data, stack).
           snd ((loopBody w h tc fc ^^ n) (data, stack)) = [] \<and>
           (\<lambda>st. length (fst st) = 4 * w * h) ((loopBody w h tc fc ^^ n) (data, stack)) \<and>
           floodLoop w h tc fc (data, stack) = Some (fst ((loopBody w h tc fc ^^ n) (data, stack)))"
  proof (rule floodLoop_rule)
    show "length (fst (data, stack)) = 4 * w * h" using assms by simp
  next
    fix d :: "u8 list" and q :: "real \<times> real" and s :: "(real \<times> real) list"
    assume "length (fst (d, q # s)) = 4 * w * h"
    then have "length d = 4 * w * h" by simp
    then show "length (fst (loopBody w h tc fc (d, q # s))) = 4 * w * h \<and>
          Suc (workLeft w h fc (loopBody w h tc fc (d, q # s))) = workLeft w h fc (d, q # s)"
      by (simp add: length_loopBody workLeft_loopBody)
  qed
  then show ?thesis by simp
qed

lemma workLeft_initial: "workLeft w h fc (data, [q]) \<le> 4 * w * h + 1"
  using unfilled_card [of w h fc data] by (simp add: workLeft_def)

lemma floodFill_cases:
  "floodFill ctx x y hex =
     (if width ctx = 0 \<or> height ctx = 0 then Some (Inl IndexSizeError)
      else if pixelAt (pixels ctx) (width ctx) (truncated (x, y)) = sampleOf (hexToRgba hex)
        then Some (Inr ctx)
      else map_option (\<lambda>d. Inr (ctx\<lparr>pixels := d\<rparr>))
             (floodLoop (width ctx) (height ctx)
                (pixelAt (pixels ctx) (width ctx) (truncated (x, y))) (hexToRgba hex)
                (pixels ctx, [(x, y)])))"
proof -
  obtain f0 f1 f2 f3 where fc: "hexToRgba hex = (f0, f1, f2, f3)" by (cases "hexToRgba hex")
  show ?thesis
    by (simp add: floodFill_def getImageData_def putImageData_def Let_def fc pixelAt_def
          pixelIndex_def truncated_def sampleOf_def map_option_case split: option.split)
qed

lemma inRegion_inBounds: "inRegion w h d0 seed p \<Longrightarrow> inBounds w h p"
  by (induction rule: inRegion.induct) simp_all

lemma inRegion_colour: "inRegion w h d0 seed p \<Longrightarrow> pixelAt d0 w p = pixelAt d0 w seed"
  by (induction rule: inRegion.induct) simp_all

lemma truncated_neighbours: "q \<in> truncated ` set (neighbours p) \<longleftrightarrow> adjacent p q"
  by (auto simp: neighbours_def truncated_def adjacent_def)

lemma fillInv_initial:
  assumes "inBounds w h (truncated s)" "pixelAt d0 w (truncated s) \<noteq> storedColor fc"
  shows "fillInv w h d0 fc (truncated s) (d0, [s])"
proof -
  have "inRegion w h d0 (truncated s) (truncated s)"
    using assms(1) by (rule inRegion.seed)
  moreover have "pixelAt d0 w p \<noteq> storedColor fc" if "inRegion w h d0 (truncated s) p" for p
    using inRegion_colour [OF that] assms(2) by simp
  ultimately show ?thesis
    unfolding fillInv_def by auto
qed

lemma fillInv_final:
  assumes inv: "fillInv w h d0 fc seed (d, [])" and p: "inBounds w h p"
  shows "pixelAt d w p = (if inRegion w h d0 seed p then storedColor fc else pixelAt d0 w p)"
proof -
  have s: "pixelAt d w seed = storedColor fc"
    using inv by (simp add: fillInv_def)
  have closed: "pixelAt d w b = storedColor fc"
    if "inRegion w h d0 seed a" "pixelAt d w a = storedColor fc" "adjacent a b" "inBounds w h b"
      "pixelAt d0 w b = pixelAt d0 w seed" for a b
    using inv that unfolding fillInv_def by fastforce
  have filled: "pixelAt d w a = storedColor fc" if "inRegion w h d0 seed a" for a
    using that
  proof (induction rule: inRegion.induct)
    case seed
    show ?case by (rule s)
  next
    case (step a b)
    from step.hyps(1) step.IH step.hyps(2,3,4) show ?case by (rule closed)
  qed
  have other: "pixelAt d w p = pixelAt d0 w p" if "\<not> inRegion w h d0 seed p"
    using inv p that unfolding fillInv_def by fastforce
  show ?thesis
    using filled other by simp
qed

lemma fillInvI:
  assumes "length d = length d0"
    and "\<And>p. inBounds w h p \<Longrightarrow>
           pixelAt d w p = pixelAt d0 w p \<or> (inRegion w h d0 seed p \<and> pixelAt d w p = storedColor fc)"
    and "\<And>r. r \<in> set s \<Longrightarrow> inBounds w h (truncated r) \<Longrightarrow>
           pixelAt d0 w (truncated r) = pixelAt d0 w seed \<Longrightarrow> inRegion w h d0 seed (truncated r)"
    and "pixelAt d w seed = storedColor fc \<or> seed \<in> truncated ` set s"
    and "\<And>p r. inRegion w h d0 seed p \<Longrightarrow> pixelAt d w p = storedColor fc \<Longrightarrow> adjacent p r \<Longrightarrow>
           inBounds w h r \<Longrightarrow> pixelAt d0 w r = pixelAt d0 w seed \<Longrightarrow>
           pixelAt d w r = storedColor fc \<or> r \<in> truncated ` set s"
  shows "fillInv w h d0 fc seed (d, s)"
  unfolding fillInv_def fst_conv snd_conv
  using assms by blast

lemma fillInvD:
  assumes "fillInv w h d0 fc seed (d, s)"
  shows "length d = length d0"
    and "\<And>p. inBounds w h p \<Longrightarrow>
           pixelAt d w p = pixelAt d0 w p \<or> (inRegion w h d0 seed p \<and> pixelAt d w p = storedColor fc)"
    and "\<And>r. r \<in> set s \<Longrightarrow> inBounds w h (truncated r) \<Longrightarrow>
           pixelAt d0 w (truncated r) = pixelAt d0 w seed \<Longrightarrow> inRegion w h d0 seed (truncated r)"
    and "pixelAt d w seed = storedColor fc \<or> seed \<in> truncated ` set s"
    and "\<And>p r. inRegion w h d0 seed p \<Longrightarrow> pixelAt d w p = storedColor fc \<Longrightarrow> adjacent p r \<Longrightarrow>
           inBounds w h r \<Longrightarrow> pixelAt d0 w r = pixelAt d0 w seed \<Longrightarrow>
           pixelAt d w r = storedColor fc \<or> r \<in> truncated ` set s"
  using assms unfolding fillInv_def fst_conv snd_conv by blast+

lemma fillInv_loopBody:
  assumes len: "length d0 = 4 * w * h"
    and seed: "inBounds w h seed"
    and ne: "pixelAt d0 w seed \<noteq> storedColor fc"
    and inv: "fillInv w h d0 fc seed (data, q # stack)"
  shows "fillInv w h d0 fc seed (loopBody w h (pixelAt d0 w seed) fc (data, q # stack))"
proof -
  note i = fillInvD [OF inv]
  have i4: "pixelAt data w seed = storedColor fc \<or> seed = truncated q \<or> seed \<in> truncated ` set stack"
    using i(4) by auto
  have i5: "pixelAt data w r = storedColor fc \<or> r = truncated q \<or> r \<in> truncated ` set stack"
    if "inRegion w h d0 seed p" "pixelAt data w p = storedColor fc" "adjacent p r"
       "inBounds w h r" "pixelAt d0 w r = pixelAt d0 w seed" for p r
    using i(5) [OF that] by auto
  show ?thesis
  proof (cases "inBounds w h (truncated q)")
    case False
    have l: "loopBody w h (pixelAt d0 w seed) fc (data, q # stack) = (data, stack)"
      using False by (rule loopBody_outside)
    have "seed \<noteq> truncated q" using seed False by auto
    then have a4: "pixelAt data w seed = storedColor fc \<or> seed \<in> truncated ` set stack"
      using i4 by blast
    have a5: "pixelAt data w r = storedColor fc \<or> r \<in> truncated ` set stack"
      if "inRegion w h d0 seed p" "pixelAt data w p = storedColor fc" "adjacent p r"
         "inBounds w h r" "pixelAt d0 w r = pixelAt d0 w seed" for p r
    proof -
      have "r \<noteq> truncated q" using that(4) False by auto
      then show ?thesis using i5 [OF that] by blast
    qed
    show ?thesis
      unfolding l
      by (rule fillInvI) (use i(1) i(2) i(3) a4 a5 in \<open>simp_all\<close>)
  next
    case True
    show ?thesis
    proof (cases "pixelAt data w (truncated q) \<noteq> storedColor fc
                  \<and> pixelAt data w (truncated q) = pixelAt d0 w seed")
      case False
      have l: "loopBody w h (pixelAt d0 w seed) fc (data, q # stack) = (data, stack)"
        using True False by (rule loopBody_skip)
      have k: "pixelAt data w (truncated q) = storedColor fc"
        if "pixelAt d0 w (truncated q) = pixelAt d0 w seed"
        using i(2) [OF True] that False ne by auto
      have a4: "pixelAt data w seed = storedColor fc \<or> seed \<in> truncated ` set stack"
        using i4 k by auto
      have a5: "pixelAt data w r = storedColor fc \<or> r \<in> truncated ` set stack"
        if "inRegion w h d0 seed p" "pixelAt data w p = storedColor fc" "adjacent p r"
           "inBounds w h r" "pixelAt d0 w r = pixelAt d0 w seed" for p r
        using i5 [OF that] k that(5) by auto
      show ?thesis
        unfolding l
        by (rule fillInvI) (use i(1) i(2) i(3) a4 a5 in \<open>simp_all\<close>)
    next
      case fill: True
      define qt where "qt = truncated q"
      define data' where "data' = fillPixel data (pixelIndex w qt) fc"
      have qin: "inBounds w h qt" using True by (simp add: qt_def)
      have nf: "pixelAt data w qt \<noteq> storedColor fc" and tq: "pixelAt data w qt = pixelAt d0 w seed"
        unfolding qt_def using fill by blast+
      have l: "loopBody w h (pixelAt d0 w seed) fc (data, q # stack) = (data', neighbours qt @ stack)"
        unfolding data'_def qt_def
        using True conjunct1 [OF fill] conjunct2 [OF fill] by (rule loopBody_fill)
      have ld: "length data = 4 * w * h" using i(1) len by simp
      have same: "pixelAt data' w qt = storedColor fc"
        unfolding data'_def using ld qin by (rule pixelAt_fillPixel_same)
      have other: "pixelAt data' w p = pixelAt data w p" if "inBounds w h p" "p \<noteq> qt" for p
        unfolding data'_def using qin that by (rule pixelAt_fillPixel_other)
      have oq: "pixelAt d0 w qt = pixelAt d0 w seed"
        using i(2) [OF qin] nf tq by auto
      have cq: "inRegion w h d0 seed qt"
        using i(3) [of q] qin oq by (simp add: qt_def)
      have a1: "length data' = length d0" using i(1) by (simp add: data'_def)
      have a2: "pixelAt data' w p = pixelAt d0 w p
                \<or> (inRegion w h d0 seed p \<and> pixelAt data' w p = storedColor fc)"
        if "inBounds w h p" for p
      proof (cases "p = qt")
        case True
        then show ?thesis using cq same by simp
      next
        case False
        then show ?thesis using i(2) [OF that] other [OF that] by simp
      qed
      have a3: "inRegion w h d0 seed (truncated r)"
        if "r \<in> set (neighbours qt @ stack)" "inBounds w h (truncated r)"
           "pixelAt d0 w (truncated r) = pixelAt d0 w seed" for r
      proof (cases "r \<in> set (neighbours qt)")
        case True
        then have "adjacent qt (truncated r)"
          using truncated_neighbours [of "truncated r" qt] by blast
        with cq show ?thesis using that(2,3) by (rule inRegion.step)
      next
        case False
        then have "r \<in> set (q # stack)" using that(1) by simp
        then show ?thesis using that(2,3) by (rule i(3))
      qed
      have keep: "pixelAt data' w p = storedColor fc"
        if "inBounds w h p" "pixelAt data w p = storedColor fc" for p
        using that other [of p] same by (cases "p = qt") simp_all
      have a4: "pixelAt data' w seed = storedColor fc \<or> seed \<in> truncated ` set (neighbours qt @ stack)"
        using i4 keep [OF seed] same by (auto simp: qt_def)
      have a5: "pixelAt data' w r = storedColor fc \<or> r \<in> truncated ` set (neighbours qt @ stack)"
        if c: "inRegion w h d0 seed p" "pixelAt data' w p = storedColor fc" "adjacent p r"
           "inBounds w h r" "pixelAt d0 w r = pixelAt d0 w seed" for p r
      proof (cases "p = qt")
        case True
        then have "r \<in> truncated ` set (neighbours qt)"
          using c(3) truncated_neighbours [of r qt] by simp
        then show ?thesis by auto
      next
        case False
        have "inBounds w h p" using c(1) by (rule inRegion_inBounds)
        then have "pixelAt data w p = storedColor fc"
          using other [of p] False c(2) by simp
        from i5 [OF c(1) this c(3,4,5)]
        show ?thesis using keep [OF c(4)] same by (auto simp: qt_def)
      qed
      show ?thesis
        unfolding l
        by (rule fillInvI) (use a1 a2 a3 a4 a5 in \<open>blast+\<close>)
    qed
  qed
qed

lemma floodLoop_component:
  assumes len: "length d0 = 4 * w * h"
    and seed: "inBounds w h (truncated s)"
    and ne: "pixelAt d0 w (truncated s) \<noteq> storedColor fc"
  shows "\<exists>d. floodLoop w h (pixelAt d0 w (truncated s)) fc (d0, [s]) = Some d
           \<and> length d = length d0
           \<and> (\<forall>p. inBounds w h p \<longrightarrow>
                 pixelAt d w p = (if inRegion w h d0 (truncated s) p then storedColor fc
                                  else pixelAt d0 w p))"
proof -
  define tc where "tc = pixelAt d0 w (truncated s)"
  have "\<exists>n \<le> workLeft w h fc (d0, [s]).
          snd ((loopBody w h tc fc ^^ n) (d0, [s])) = [] \<and>
          fillInv w h d0 fc (truncated s) ((loopBody w h tc fc ^^ n) (d0, [s])) \<and>
          floodLoop w h tc fc (d0, [s]) = Some (fst ((loopBody w h tc fc ^^ n) (d0, [s])))"
  proof (rule floodLoop_rule)
    show "fillInv w h d0 fc (truncated s) (d0, [s])"
      using seed ne by (rule fillInv_initial)
  next
    fix data :: "u8 list" and q :: "real \<times> real" and stack :: "(real \<times> real) list"
    assume inv: "fillInv w h d0 fc (truncated s) (data, q # stack)"
    then have "length data = 4 * w * h"
      using len by (simp add: fillInv_def)
    then have "Suc (workLeft w h fc (loopBody w h tc fc (data, q # stack)))
               = workLeft w h fc (data, q # stack)"
      by (rule workLeft_loopBody)
    moreover have "fillInv w h d0 fc (truncated s) (loopBody w h tc fc (data, q # stack))"
      unfolding tc_def using len seed ne inv by (rule fillInv_loopBody)
    ultimately show "fillInv w h d0 fc (truncated s) (loopBody w h tc fc (data, q # stack)) \<and>
        Suc (workLeft w h fc (loopBody w h tc fc (data, q # stack)))
          = workLeft w h fc (data, q # stack)"
      by simp
  qed
  then obtain st where st: "snd st = []" "fillInv w h d0 fc (truncated s) st"
    "floodLoop w h tc fc (d0, [s]) = Some (fst st)"
    by blast
  then have inv: "fillInv w h d0 fc (truncated s) (fst st, [])"
    by (cases st) simp
  have "length (fst st) = length d0"
    using inv by (simp add: fillInv_def)
  moreover have "pixelAt (fst st) w p = (if inRegion w h d0 (truncated s) p then storedColor fc
                                  else pixelAt d0 w p)" if "inBounds w h p" for p
    using inv that by (rule fillInv_final)
  ultimately show ?thesis
    using st(3) unfolding tc_def by blast
qed

lemma uint_clampU8: "0 \<le> v \<Longrightarrow> v \<le> 255 \<Longrightarrow> uint (clampU8 v) = v"
  by (simp add: clampU8_def uint_word_of_int)

lemma storedColor_hexToRgba: "storedColor (hexToRgba hex) = sampleOf (hexToRgba hex)"
proof -
  obtain r g b a where c: "hexToRgba hex = (r, g, b, a)" by (cases "hexToRgba hex")
  from hexToRgba_range [OF c] show ?thesis
    by (simp add: c storedColor_def sampleOf_def uint_clampU8)
qed

lemma floodFill_inside:
  assumes wf: "wellFormed ctx"
    and seed: "inBounds (width ctx) (height ctx) (truncated (x, y))"
    and ne: "pixelAt (pixels ctx) (width ctx) (truncated (x, y)) \<noteq> sampleOf (hexToRgba hex)"
  shows "\<exists>data'. floodFill ctx x y hex = Some (Inr (ctx\<lparr>pixels := data'\<rparr>))
           \<and> length data' = length (pixels ctx)
           \<and> (\<forall>p. inBounds (width ctx) (height ctx) p \<longrightarrow>
                 pixelAt data' (width ctx) p =
                   (if inRegion (width ctx) (height ctx) (pixels ctx) (truncated (x, y)) p
                    then sampleOf (hexToRgba hex) else pixelAt (pixels ctx) (width ctx) p))"
proof -
  have len: "length (pixels ctx) = 4 * width ctx * height ctx"
    using wf by (simp add: wellFormed_def)
  have ne': "pixelAt (pixels ctx) (width ctx) (truncated (x, y)) \<noteq> storedColor (hexToRgba hex)"
    using ne by (simp add: storedColor_hexToRgba)
  have pos: "\<not> (width ctx = 0 \<or> height ctx = 0)"
    using seed by (auto simp: inBounds_def)
  from floodLoop_component [OF len seed ne']
  obtain d where d: "floodLoop (width ctx) (height ctx)
        (pixelAt (pixels ctx) (width ctx) (truncated (x, y))) (hexToRgba hex)
        (pixels ctx, [(x, y)]) = Some d"
      "length d = length (pixels ctx)"
      "\<forall>p. inBounds (width ctx) (height ctx) p \<longrightarrow>
         pixelAt d (width ctx) p =
           (if inRegion (width ctx) (height ctx) (pixels ctx) (truncated (x, y)) p
            then storedColor (hexToRgba hex) else pixelAt (pixels ctx) (width ctx) p)"
    by blast
  have "floodFill ctx x y hex = Some (Inr (ctx\<lparr>pixels := d\<rparr>))"
    unfolding floodFill_cases using pos ne d(1) by simp
  then show ?thesis
    using d(2) d(3) unfolding storedColor_hexToRgba by blast
qed

lemma nth_concat_replicate:
  "xs \<noteq> [] \<Longrightarrow> i < n * length xs \<Longrightarrow> concat (replicate n xs) ! i = xs ! (i mod length xs)"
proof (induction n arbitrary: i)
  case 0
  then show ?case by simp
next
  case (Suc n)
  show ?case
  proof (cases "i < length xs")
    case True
    then show ?thesis by (simp add: nth_append)
  next
    case False
    then have "i - length xs < n * length xs" using Suc.prems(2) by simp
    then have "concat (replicate n xs) ! (i - length xs) = xs ! ((i - length xs) mod length xs)"
      using Suc.IH Suc.prems(1) by blast
    moreover have "(i - length xs) mod length xs = i mod length xs"
      using False by (simp add: le_mod_geq)
    ultimately show ?thesis using False by (simp add: nth_append)
  qed
qed

lemma inBounds_linear:
  assumes "inBounds w h p"
  shows "\<exists>n. n < w * h \<and> pixelIndex w p = 4 * int n"
proof -
  have "0 \<le> pixelIndex w p" "pixelIndex w p + 3 < 4 * int w * int h"
    using assms by (rule inBounds_index)+
  moreover have "pixelIndex w p = 4 * (snd p * int w + fst p)"
    by (simp add: pixelIndex_def)
  ultimately have "0 \<le> snd p * int w + fst p" "snd p * int w + fst p < int (w * h)"
    by simp_all
  then have "nat (snd p * int w + fst p) < w * h"
    "pixelIndex w p = 4 * int (nat (snd p * int w + fst p))"
    by (simp_all add: pixelIndex_def nat_less_iff)
  then show ?thesis by blast
qed

lemma readU8_nth:
  "i < length a \<Longrightarrow> readU8 a (int i) = Some (uint (a ! i))"
  by (simp add: readU8_def arrayGet_def)

lemma pixelAt_nth:
  assumes "length a = 4 * w * h" "n < w * h" "pixelIndex w p = 4 * int n"
  shows "pixelAt a w p = (Some (uint (a ! (4 * n))), Some (uint (a ! (4 * n + 1))),
                           Some (uint (a ! (4 * n + 2))), Some (uint (a ! (4 * n + 3))))"
proof -
  have l: "4 * n + 3 < length a" using assms(1,2) by simp
  have r: "readU8 a (4 * int n + int k) = Some (uint (a ! (4 * n + k)))" if "k < 4" for k
    using readU8_nth [of "4 * n + k" a] l that by simp
  from r [of 0] r [of 1] r [of 2] r [of 3] show ?thesis
    by (simp add: pixelAt_def assms(3))
qed

lemma pixelAt_uniformCanvas:
  assumes "inBounds w h p"
  shows "pixelAt (pixels (uniformCanvas w h c)) w p = storedColor c"
proof -
  obtain f0 f1 f2 f3 where c: "c = (f0, f1, f2, f3)" by (cases c)
  define arr where "arr = [clampU8 f0, clampU8 f1, clampU8 f2, clampU8 f3]"
  define a where "a = concat (replicate (w * h) arr)"
  have px: "pixels (uniformCanvas w h c) = a"
    by (simp add: uniformCanvas_def a_def arr_def c uint8ClampedArray_def)
  obtain n where n: "n < w * h" "pixelIndex w p = 4 * int n"
    using inBounds_linear [OF assms] by blast
  have la: "length a = 4 * w * h"
    by (simp add: a_def arr_def length_concat sum_list_replicate)
  have nth: "a ! (4 * n + k) = arr ! k" if "k < 4" for k
  proof -
    have "4 * n + k < (w * h) * length arr" using n(1) that by (simp add: arr_def)
    moreover have "arr \<noteq> []" by (simp add: arr_def)
    ultimately have "a ! (4 * n + k) = arr ! ((4 * n + k) mod length arr)"
      unfolding a_def by (rule nth_concat_replicate [rotated])
    moreover have "(4 * n + k) mod 4 = k" using that by simp
    ultimately show ?thesis by (simp add: arr_def)
  qed
  from nth [of 0] nth [of 1] nth [of 2] nth [of 3] show ?thesis
    unfolding px pixelAt_nth [OF la n]
    by (simp add: arr_def storedColor_def c)
qed

lemma wellFormed_uniformCanvas: "wellFormed (uniformCanvas w h c)"
  by (cases c) (simp add: wellFormed_def uniformCanvas_def uint8ClampedArray_def length_concat
      sum_list_replicate)

lemma pixel_ext:
  assumes la: "length a = 4 * w * h" and lb: "length b = 4 * w * h"
    and eq: "\<And>p. inBounds w h p \<Longrightarrow> pixelAt a w p = pixelAt b w p"
  shows "a = b"
proof (rule nth_equalityI)
  show "length a = length b" using la lb by simp
next
  fix i assume i: "i < length a"
  define n where "n = i div 4"
  define p where "p = (int (n mod w), int (n div w))"
  have n: "n < w * h" using i la by (simp add: n_def)
  then have w0: "0 < w" by (cases w) simp_all
  have "n div w < h" using n by (simp add: less_mult_imp_div_less mult.commute)
  then have pin: "inBounds w h p" using w0 by (simp add: p_def inBounds_def)
  have "int (n div w) * int w + int (n mod w) = int n"
    by (metis of_nat_add of_nat_mult div_mult_mod_eq)
  then have pi: "pixelIndex w p = 4 * int n" by (simp add: pixelIndex_def p_def)
  have e: "pixelAt a w p = pixelAt b w p" using pin by (rule eq)
  have k: "i = 4 * n + i mod 4" by (simp add: n_def)
  have "i mod 4 = 0 \<or> i mod 4 = 1 \<or> i mod 4 = 2 \<or> i mod 4 = 3" by arith
  then have "uint (a ! i) = uint (b ! i)"
    using e unfolding pixelAt_nth [OF la n pi] pixelAt_nth [OF lb n pi]
    by (subst (1 2) k) auto
  then show "a ! i = b ! i" by (simp add: word_uint_eq_iff)
qed

lemma inRegion_walk:
  assumes uni: "\<And>p. inBounds w h p \<Longrightarrow> pixelAt d0 w p = pixelAt d0 w seed"
    and dir: "(dx, dy) = (1, 0) \<or> (dx, dy) = (- 1, 0) \<or> (dx, dy) = (0, 1) \<or> (dx, dy) = (0, - 1)"
    and start: "inRegion w h d0 seed (x, y)"
    and target: "inBounds w h (x + int n * dx, y + int n * dy)"
  shows "inRegion w h d0 seed (x + int n * dx, y + int n * dy)"
  using target
proof (induction n)
  case 0
  then show ?case using start by simp
next
  case (Suc n)
  have s: "inBounds w h (x, y)" using start by (rule inRegion_inBounds)
  have "inBounds w h (x + int n * dx, y + int n * dy)"
    using s Suc.prems dir by (auto simp: inBounds_def algebra_simps)
  then have c: "inRegion w h d0 seed (x + int n * dx, y + int n * dy)" by (rule Suc.IH)
  have a: "adjacent (x + int n * dx, y + int n * dy) (x + int (Suc n) * dx, y + int (Suc n) * dy)"
    using dir by (auto simp: adjacent_def algebra_simps)
  from c a Suc.prems uni [OF Suc.prems] show ?case by (rule inRegion.step)
qed

lemma inRegion_uniform:
  assumes uni: "\<And>p. inBounds w h p \<Longrightarrow> pixelAt d0 w p = pixelAt d0 w seed"
    and seed: "inBounds w h seed" and p: "inBounds w h p"
  shows "inRegion w h d0 seed p"
proof -
  obtain sx sy where s: "seed = (sx, sy)" by (cases seed)
  obtain x y where pp: "p = (x, y)" by (cases p)
  have c0: "inRegion w h d0 seed (sx, sy)"
    unfolding s [symmetric] using seed by (rule inRegion.seed)
  have row: "inBounds w h (x, sy)" using seed p by (simp add: s pp inBounds_def)
  have c1: "inRegion w h d0 seed (x, sy)"
  proof (cases "sx \<le> x")
    case True
    then have e: "x = sx + int (nat (x - sx)) * 1" "sy = sy + int (nat (x - sx)) * 0" by simp_all
    have "inRegion w h d0 seed (sx + int (nat (x - sx)) * 1, sy + int (nat (x - sx)) * 0)"
      by (rule inRegion_walk [OF uni _ c0]) (use row e in simp_all)
    then show ?thesis using e by simp
  next
    case False
    then have e: "x = sx + int (nat (sx - x)) * (- 1)" "sy = sy + int (nat (sx - x)) * 0" by simp_all
    have "inRegion w h d0 seed (sx + int (nat (sx - x)) * (- 1), sy + int (nat (sx - x)) * 0)"
      by (rule inRegion_walk [OF uni _ c0]) (use row e in simp_all)
    then show ?thesis using e by simp
  qed
  have c2: "inRegion w h d0 seed (x, y)"
  proof (cases "sy \<le> y")
    case True
    then have e: "x = x + int (nat (y - sy)) * 0" "y = sy + int (nat (y - sy)) * 1" by simp_all
    have "inRegion w h d0 seed (x + int (nat (y - sy)) * 0, sy + int (nat (y - sy)) * 1)"
      by (rule inRegion_walk [OF uni _ c1]) (use p pp e in simp_all)
    then show ?thesis using e by simp
  next
    case False
    then have e: "x = x + int (nat (sy - y)) * 0" "y = sy + int (nat (sy - y)) * (- 1)" by simp_all
    have "inRegion w h d0 seed (x + int (nat (sy - y)) * 0, sy + int (nat (sy - y)) * (- 1))"
      by (rule inRegion_walk [OF uni _ c1]) (use p pp e in simp_all)
    then show ?thesis using e by simp
  qed
  then show ?thesis by (simp add: pp)
qed

lemma floodFill_uniformCanvas:
  assumes seed: "inBounds w h (truncated (x, y))"
    and ne: "storedColor c \<noteq> sampleOf (hexToRgba hex)"
  shows "floodFill (uniformCanvas w h c) x y hex = Some (Inr (uniformCanvas w h (hexToRgba hex)))"
proof -
  define ctx where "ctx = uniformCanvas w h c"
  have dims: "width ctx = w" "height ctx = h" by (simp_all add: ctx_def uniformCanvas_def)
  have wf: "wellFormed ctx" unfolding ctx_def by (rule wellFormed_uniformCanvas)
  have px: "pixelAt (pixels ctx) w p = storedColor c" if "inBounds w h p" for p
    unfolding ctx_def using that by (rule pixelAt_uniformCanvas)
  have uni: "pixelAt (pixels ctx) w p = pixelAt (pixels ctx) w (truncated (x, y))"
    if "inBounds w h p" for p
    using px [OF that] px [OF seed] by simp
  have conn: "inRegion w h (pixels ctx) (truncated (x, y)) p" if "inBounds w h p" for p
    using uni seed that by (rule inRegion_uniform)
  from floodFill_inside [of ctx x y hex] wf seed ne px [OF seed]
  obtain d where d: "floodFill ctx x y hex = Some (Inr (ctx\<lparr>pixels := d\<rparr>))"
    "length d = length (pixels ctx)"
    "\<forall>p. inBounds w h p \<longrightarrow> pixelAt d w p =
       (if inRegion w h (pixels ctx) (truncated (x, y)) p
        then sampleOf (hexToRgba hex) else pixelAt (pixels ctx) w p)"
    unfolding dims by auto
  have ld: "length d = 4 * w * h" using d(2) wf by (simp add: wellFormed_def dims)
  have lu: "length (pixels (uniformCanvas w h (hexToRgba hex))) = 4 * w * h"
    using wellFormed_uniformCanvas [of w h "hexToRgba hex"]
    by (simp add: wellFormed_def uniformCanvas_def)
  have "d = pixels (uniformCanvas w h (hexToRgba hex))"
  proof (rule pixel_ext [OF ld lu])
    fix p assume p: "inBounds w h p"
    have "pixelAt d w p = sampleOf (hexToRgba hex)"
      using spec [OF d(3), of p] conn [OF p] p by simp
    also have "\<dots> = pixelAt (pixels (uniformCanvas w h (hexToRgba hex))) w p"
      using pixelAt_uniformCanvas [OF p, of "hexToRgba hex"] by (simp add: storedColor_hexToRgba)
    finally show "pixelAt d w p = pixelAt (pixels (uniformCanvas w h (hexToRgba hex))) w p" .
  qed
  then have "ctx\<lparr>pixels := d\<rparr> = uniformCanvas w h (hexToRgba hex)"
    by (simp add: ctx_def uniformCanvas_def)
  then show ?thesis using d(1) by (simp add: ctx_def)
qed

lemma floodFill_outside:
  assumes "\<not> inBounds (width ctx) (height ctx) (truncated (x, y))"
  shows "floodFill ctx x y hex =
           (if width ctx = 0 \<or> height ctx = 0 then Some (Inl IndexSizeError) else Some (Inr ctx))"
proof -
  have "loopBody (width ctx) (height ctx) tc fc (pixels ctx, [(x, y)]) = (pixels ctx, [])" for tc fc
    using assms by (rule loopBody_outside)
  then have "floodLoop (width ctx) (height ctx) tc fc (pixels ctx, [(x, y)]) = Some (pixels ctx)"
    for tc fc
    by (simp add: floodLoop_Cons floodLoop_Nil)
  then show ?thesis
    by (simp add: floodFill_cases)
qed

lemma loopBody_fills_once:
  assumes "length data = 4 * w * h"
  shows "unfilled w h fc (fst (loopBody w h tc fc (data, q # stack))) \<subseteq> unfilled w h fc data
    \<and> (fst (loopBody w h tc fc (data, q # stack)) \<noteq> data \<longrightarrow>
         truncated q \<in> unfilled w h fc data
         \<and> truncated q \<notin> unfilled w h fc (fst (loopBody w h tc fc (data, q # stack))))"
proof (cases "inBounds w h (truncated q)")
  case False
  then show ?thesis by (simp add: loopBody_outside)
next
  case True
  show ?thesis
  proof (cases "pixelAt data w (truncated q) \<noteq> storedColor fc \<and> pixelAt data w (truncated q) = tc")
    case False
    have "loopBody w h tc fc (data, q # stack) = (data, stack)"
      using True False by (rule loopBody_skip)
    then show ?thesis by simp
  next
    case fill: True
    have l: "loopBody w h tc fc (data, q # stack)
        = (fillPixel data (pixelIndex w (truncated q)) fc, neighbours (truncated q) @ stack)"
      using True conjunct1 [OF fill] conjunct2 [OF fill] by (rule loopBody_fill)
    have "truncated q \<in> unfilled w h fc data"
      using True conjunct1 [OF fill] by (simp add: unfilled_def)
    then show ?thesis
      unfolding l fst_conv unfilled_fillPixel [OF assms True] by blast
  qed
qed

lemma hexToRgba_alpha: "\<exists>r g b. hexToRgba hex = (r, g, b, 255)"
  by (simp add: hexToRgba_def Let_def)

text \<open>
  C1. On a well-formed canvas, for a seed whose pixel lies inside the canvas and whose colour
  is not the fill colour, \<open>floodFill\<close> returns a buffer of the same length in which a
  pixel of the canvas holds the fill colour if it lies in the region of the seed (joined to
  the seed by up, down, left and right steps through pixels that had the seed's colour
  before the call) and holds its old colour otherwise.
\<close>

theorem floodFill_fills_component:
  assumes "wellFormed ctx"
    and "inBounds (width ctx) (height ctx) (truncated (x, y))"
    and "pixelAt (pixels ctx) (width ctx) (truncated (x, y)) \<noteq> sampleOf (hexToRgba hex)"
  shows "\<exists>data'. floodFill ctx x y hex = Some (Inr (ctx\<lparr>pixels := data'\<rparr>))
           \<and> length data' = length (pixels ctx)
           \<and> (\<forall>p. inBounds (width ctx) (height ctx) p \<longrightarrow>
                 pixelAt data' (width ctx) p =
                   (if inRegion (width ctx) (height ctx) (pixels ctx) (truncated (x, y)) p
                    then sampleOf (hexToRgba hex) else pixelAt (pixels ctx) (width ctx) p))"
  using assms by (rule floodFill_inside)

theorem floodFill_fills_component_witness:
  "wellFormed \<lparr>width = 2, height = 1, pixels = [255, 255, 255, 255, 0, 0, 0, 255]\<rparr>
   \<and> inBounds 2 1 (truncated (0, 0))
   \<and> pixelAt [255, 255, 255, 255, 0, 0, 0, 255] 2 (truncated (0, 0)) \<noteq> sampleOf (hexToRgba ''#ff0000'')
   \<and> (\<exists>data'. floodFill \<lparr>width = 2, height = 1, pixels = [255, 255, 255, 255, 0, 0, 0, 255]\<rparr>
                   0 0 ''#ff0000''
                 = Some (Inr \<lparr>width = 2, height = 1, pixels = data'\<rparr>)
          \<and> length data' = 8
          \<and> pixelAt data' 2 (0, 0) = (Some 255, Some 0, Some 0, Some 255)
          \<and> pixelAt data' 2 (1, 0) = (Some 0, Some 0, Some 0, Some 255))"
proof -
  define ctx where "ctx = \<lparr>width = 2, height = 1, pixels = [255, 255, 255, 255, 0, 0, 0, 255]\<rparr>"
  have w: "wellFormed ctx" by (simp add: ctx_def wellFormed_def)
  have t: "truncated (0, 0) = (0, 0)" by (simp add: truncated_def)
  have s: "inBounds (width ctx) (height ctx) (truncated (0, 0))"
    by (simp add: ctx_def inBounds_def t)
  have fc: "hexToRgba ''#ff0000'' = (255, 0, 0, 255)" by code_simp
  have p0: "pixelAt (pixels ctx) (width ctx) (0, 0) = (Some 255, Some 255, Some 255, Some 255)"
    by (simp add: ctx_def pixelAt_def pixelIndex_def readU8_def arrayGet_def)
  have p1: "pixelAt (pixels ctx) (width ctx) (1, 0) = (Some 0, Some 0, Some 0, Some 255)"
    by (simp add: ctx_def pixelAt_def pixelIndex_def readU8_def arrayGet_def)
  have n: "pixelAt (pixels ctx) (width ctx) (truncated (0, 0)) \<noteq> sampleOf (hexToRgba ''#ff0000'')"
    by (simp add: t p0 fc sampleOf_def)
  have c0: "inRegion (width ctx) (height ctx) (pixels ctx) (truncated (0, 0)) (0, 0)"
    using inRegion.seed [OF s] by (simp add: t)
  have c1: "\<not> inRegion (width ctx) (height ctx) (pixels ctx) (truncated (0, 0)) (1, 0)"
    using inRegion_colour [of "width ctx" "height ctx" "pixels ctx" "truncated (0, 0)" "(1, 0)"]
    by (auto simp: t p0 p1)
  have i1: "inBounds (width ctx) (height ctx) (1, 0)" by (simp add: ctx_def inBounds_def)
  from floodFill_fills_component [OF w s n]
  obtain d where d: "floodFill ctx 0 0 ''#ff0000'' = Some (Inr (ctx\<lparr>pixels := d\<rparr>))"
    "length d = length (pixels ctx)"
    "\<forall>p. inBounds (width ctx) (height ctx) p \<longrightarrow>
       pixelAt d (width ctx) p =
         (if inRegion (width ctx) (height ctx) (pixels ctx) (truncated (0, 0)) p
          then sampleOf (hexToRgba ''#ff0000'') else pixelAt (pixels ctx) (width ctx) p)"
    by blast
  have "pixelAt d (width ctx) (0, 0) = (Some 255, Some 0, Some 0, Some 255)"
    using spec [OF d(3), of "(0, 0)"] s c0 by (simp add: t fc sampleOf_def)
  moreover have "pixelAt d (width ctx) (1, 0) = (Some 0, Some 0, Some 0, Some 255)"
    using spec [OF d(3), of "(1, 0)"] i1 c1 p1 by simp
  ultimately have "floodFill ctx 0 0 ''#ff0000'' = Some (Inr \<lparr>width = 2, height = 1, pixels = d\<rparr>)
      \<and> length d = 8 \<and> pixelAt d 2 (0, 0) = (Some 255, Some 0, Some 0, Some 255)
      \<and> pixelAt d 2 (1, 0) = (Some 0, Some 0, Some 0, Some 255)"
    using d(1,2) by (simp add: ctx_def)
  then show ?thesis
    using w s n unfolding ctx_def canvas.simps by blast
qed

text \<open>
  C5. The fill colour always has alpha 255. On a well-formed canvas, when the seed's pixel
  lies inside the canvas and already holds the fill colour in all four channels,
  \<open>floodFill\<close> returns the canvas as it is. With the seed's pixel inside the canvas a
  first call returns a canvas, and a second call with the same seed and colour on that
  canvas returns it unchanged, byte for byte; the same holds of whatever canvas a first
  call returns for a seed outside.
\<close>

theorem floodFill_same_colour_idempotent:
  assumes "wellFormed ctx"
  shows "(\<exists>r g b. hexToRgba hex = (r, g, b, 255))
       \<and> (inBounds (width ctx) (height ctx) (truncated (x, y))
            \<and> pixelAt (pixels ctx) (width ctx) (truncated (x, y)) = sampleOf (hexToRgba hex)
          \<longrightarrow> floodFill ctx x y hex = Some (Inr ctx))
       \<and> (inBounds (width ctx) (height ctx) (truncated (x, y))
          \<longrightarrow> (\<exists>ctx'. floodFill ctx x y hex = Some (Inr ctx')
                      \<and> floodFill ctx' x y hex = Some (Inr ctx')))
       \<and> (\<forall>ctx'. floodFill ctx x y hex = Some (Inr ctx')
            \<longrightarrow> floodFill ctx' x y hex = Some (Inr ctx'))"
proof -
  have early: "floodFill ctx x y hex = Some (Inr ctx)"
    if a: "inBounds (width ctx) (height ctx) (truncated (x, y))"
      "pixelAt (pixels ctx) (width ctx) (truncated (x, y)) = sampleOf (hexToRgba hex)"
  proof -
    have "\<not> (width ctx = 0 \<or> height ctx = 0)" using a(1) by (auto simp: inBounds_def)
    then show ?thesis using a(2) by (simp add: floodFill_cases)
  qed
  have again: "floodFill ctx' x y hex = Some (Inr ctx')"
    if r: "floodFill ctx x y hex = Some (Inr ctx')" for ctx'
  proof (cases "inBounds (width ctx) (height ctx) (truncated (x, y))")
    case False
    from r have "ctx' = ctx"
      unfolding floodFill_outside [OF False] by (simp split: if_splits)
    then show ?thesis using r by simp
  next
    case True
    show ?thesis
    proof (cases "pixelAt (pixels ctx) (width ctx) (truncated (x, y)) = sampleOf (hexToRgba hex)")
      case same: True
      from r have "ctx' = ctx" unfolding early [OF True same] by simp
      then show ?thesis using r by simp
    next
      case False
      from floodFill_inside [OF assms True False]
      obtain d where d: "floodFill ctx x y hex = Some (Inr (ctx\<lparr>pixels := d\<rparr>))"
        "\<forall>p. inBounds (width ctx) (height ctx) p \<longrightarrow>
           pixelAt d (width ctx) p =
             (if inRegion (width ctx) (height ctx) (pixels ctx) (truncated (x, y)) p
              then sampleOf (hexToRgba hex) else pixelAt (pixels ctx) (width ctx) p)"
        by blast
      have c: "ctx' = ctx\<lparr>pixels := d\<rparr>" using r d(1) by simp
      have "inRegion (width ctx) (height ctx) (pixels ctx) (truncated (x, y)) (truncated (x, y))"
        using True by (rule inRegion.seed)
      then have "pixelAt d (width ctx) (truncated (x, y)) = sampleOf (hexToRgba hex)"
        using spec [OF d(2), of "truncated (x, y)"] True by simp
      moreover have "\<not> (width ctx = 0 \<or> height ctx = 0)" using True by (auto simp: inBounds_def)
      ultimately show ?thesis
        by (simp add: floodFill_cases c)
    qed
  qed
  have returns: "\<exists>ctx'. floodFill ctx x y hex = Some (Inr ctx')"
    if s: "inBounds (width ctx) (height ctx) (truncated (x, y))"
  proof (cases "pixelAt (pixels ctx) (width ctx) (truncated (x, y)) = sampleOf (hexToRgba hex)")
    case True
    with s show ?thesis using early by blast
  next
    case False
    with floodFill_inside [OF assms s] show ?thesis by blast
  qed
  from hexToRgba_alpha [of hex] early again returns show ?thesis by blast
qed

theorem floodFill_same_colour_idempotent_witness:
  "wellFormed \<lparr>width = 2, height = 1, pixels = [255, 0, 0, 255, 0, 0, 0, 255]\<rparr>
   \<and> inBounds 2 1 (truncated (0, 0))
   \<and> pixelAt [255, 0, 0, 255, 0, 0, 0, 255] 2 (truncated (0, 0)) = sampleOf (hexToRgba ''#ff0000'')
   \<and> floodFill \<lparr>width = 2, height = 1, pixels = [255, 0, 0, 255, 0, 0, 0, 255]\<rparr> 0 0 ''#ff0000''
       = Some (Inr \<lparr>width = 2, height = 1, pixels = [255, 0, 0, 255, 0, 0, 0, 255]\<rparr>)
   \<and> wellFormed \<lparr>width = 2, height = 1, pixels = [0, 0, 0, 255, 0, 0, 0, 255]\<rparr>
   \<and> (\<exists>ctx'. floodFill \<lparr>width = 2, height = 1, pixels = [0, 0, 0, 255, 0, 0, 0, 255]\<rparr> 0 0 ''#ff0000''
               = Some (Inr ctx')
             \<and> floodFill ctx' 0 0 ''#ff0000'' = Some (Inr ctx'))"
proof -
  define a where "a = \<lparr>width = 2, height = 1, pixels = [255, 0, 0, 255, 0, 0, 0, 255]\<rparr>"
  define b where "b = \<lparr>width = 2, height = 1, pixels = [0, 0, 0, 255, 0, 0, 0, 255]\<rparr>"
  have wa: "wellFormed a" and wb: "wellFormed b" by (simp_all add: a_def b_def wellFormed_def)
  have t: "truncated (0, 0) = (0, 0)" by (simp add: truncated_def)
  have fc: "hexToRgba ''#ff0000'' = (255, 0, 0, 255)" by code_simp
  have sa: "inBounds (width a) (height a) (truncated (0, 0))"
    and sb: "inBounds (width b) (height b) (truncated (0, 0))"
    by (simp_all add: a_def b_def inBounds_def t)
  have pa: "pixelAt (pixels a) (width a) (truncated (0, 0)) = sampleOf (hexToRgba ''#ff0000'')"
    by (simp add: a_def t fc sampleOf_def pixelAt_def pixelIndex_def readU8_def arrayGet_def)
  have pb: "pixelAt (pixels b) (width b) (truncated (0, 0)) \<noteq> sampleOf (hexToRgba ''#ff0000'')"
    by (simp add: b_def t fc sampleOf_def pixelAt_def pixelIndex_def readU8_def arrayGet_def)
  have ra: "floodFill a 0 0 ''#ff0000'' = Some (Inr a)"
    using floodFill_same_colour_idempotent [OF wa, where x = 0 and y = 0 and hex = "''#ff0000''"] sa pa by blast
  obtain d where "floodFill b 0 0 ''#ff0000'' = Some (Inr (b\<lparr>pixels := d\<rparr>))"
    using floodFill_inside [OF wb sb pb] by blast
  then have "\<exists>ctx'. floodFill b 0 0 ''#ff0000'' = Some (Inr ctx')
      \<and> floodFill ctx' 0 0 ''#ff0000'' = Some (Inr ctx')"
    using floodFill_same_colour_idempotent [OF wb, where x = 0 and y = 0 and hex = "''#ff0000''"] by blast
  then show ?thesis
    using wa wb sa pa ra unfolding a_def b_def canvas.simps by blast
qed

text \<open>
  C7. On a well-formed canvas \<open>floodFill\<close> returns for every seed and every colour string,
  and the loop, started with any target and fill colour, empties its stack after at most
  \<open>4 * width * height + 1\<close> iterations. No iteration takes the fill colour away from a
  pixel, an iteration that changes the buffer gives the fill colour to a pixel that did not
  hold it (so a pixel is filled at most once), and each iteration lowers by exactly one the
  measure that counts four for every pixel not of the fill colour and one for every stacked
  coordinate. The seed is any pair of finite numbers.
\<close>

theorem floodFill_terminates:
  assumes "wellFormed ctx"
  shows "(\<exists>r. floodFill ctx startX startY fillHex = Some r)
    \<and> (let body = loopBody (width ctx) (height ctx) tc fc;
            todo = workLeft (width ctx) (height ctx) fc;
            blank = unfilled (width ctx) (height ctx) fc
        in (\<exists>n \<le> 4 * width ctx * height ctx + 1.
              snd ((body ^^ n) (pixels ctx, [(startX, startY)])) = []
              \<and> floodLoop (width ctx) (height ctx) tc fc (pixels ctx, [(startX, startY)])
                  = Some (fst ((body ^^ n) (pixels ctx, [(startX, startY)]))))
           \<and> (\<forall>data q stack. length data = length (pixels ctx) \<longrightarrow>
                 blank (fst (body (data, q # stack))) \<subseteq> blank data
                 \<and> (fst (body (data, q # stack)) \<noteq> data \<longrightarrow>
                       truncated q \<in> blank data \<and> truncated q \<notin> blank (fst (body (data, q # stack))))
                 \<and> Suc (todo (body (data, q # stack))) = todo (data, q # stack)))"
proof -
  have len: "length (pixels ctx) = 4 * width ctx * height ctx"
    using assms by (simp add: wellFormed_def)
  have loop: "\<exists>n \<le> 4 * width ctx * height ctx + 1.
          snd ((loopBody (width ctx) (height ctx) t c ^^ n) (pixels ctx, [(startX, startY)])) = []
          \<and> floodLoop (width ctx) (height ctx) t c (pixels ctx, [(startX, startY)])
              = Some (fst ((loopBody (width ctx) (height ctx) t c ^^ n)
                             (pixels ctx, [(startX, startY)])))" for t c
    using floodLoop_total [OF len, of c "[(startX, startY)]" t]
          workLeft_initial [of "width ctx" "height ctx" c "pixels ctx" "(startX, startY)"]
    by (meson order_trans)
  from loop [of "pixelAt (pixels ctx) (width ctx) (truncated (startX, startY))" "hexToRgba fillHex"]
  obtain d where "floodLoop (width ctx) (height ctx)
      (pixelAt (pixels ctx) (width ctx) (truncated (startX, startY))) (hexToRgba fillHex)
      (pixels ctx, [(startX, startY)]) = Some d"
    by blast
  then have ret: "\<exists>r. floodFill ctx startX startY fillHex = Some r"
    by (simp add: floodFill_cases)
  have once: "unfilled (width ctx) (height ctx) fc
              (fst (loopBody (width ctx) (height ctx) tc fc (data, q # stack)))
            \<subseteq> unfilled (width ctx) (height ctx) fc data
          \<and> (fst (loopBody (width ctx) (height ctx) tc fc (data, q # stack)) \<noteq> data \<longrightarrow>
                truncated q \<in> unfilled (width ctx) (height ctx) fc data
                \<and> truncated q \<notin> unfilled (width ctx) (height ctx) fc
                     (fst (loopBody (width ctx) (height ctx) tc fc (data, q # stack))))
          \<and> Suc (workLeft (width ctx) (height ctx) fc
                    (loopBody (width ctx) (height ctx) tc fc (data, q # stack)))
              = workLeft (width ctx) (height ctx) fc (data, q # stack)"
    if "length data = length (pixels ctx)" for data q stack
  proof -
    have l: "length data = 4 * width ctx * height ctx" using that len by simp
    show ?thesis
      using loopBody_fills_once [OF l, of fc tc q stack] workLeft_loopBody [OF l, of fc tc q stack]
      by blast
  qed
  from ret loop [of tc fc] once show ?thesis
    unfolding Let_def by blast
qed

theorem floodFill_terminates_witness:
  "wellFormed \<lparr>width = 2, height = 1, pixels = [255, 255, 255, 255, 0, 0, 0, 255]\<rparr>
   \<and> (\<exists>r. floodFill \<lparr>width = 2, height = 1, pixels = [255, 255, 255, 255, 0, 0, 0, 255]\<rparr>
              0 0 ''#ff0000'' = Some r)"
proof -
  have w: "wellFormed \<lparr>width = 2, height = 1, pixels = [255, 255, 255, 255, 0, 0, 0, 255]\<rparr>"
    by (simp add: wellFormed_def)
  from floodFill_terminates [OF w] w show ?thesis by blast
qed

text \<open>
  C8. A popped coordinate outside the canvas leaves the buffer as it is and only shrinks the
  stack, and a popped coordinate inside writes, if at all, the four bytes of its own pixel.
  Filling the uniform 10 by 10 canvas of colour \<open>#FFFFFF\<close> from \<open>(0, 0)\<close> with
  \<open>#FF0000\<close> gives one hundred pixels \<open>(255, 0, 0, 255)\<close>. With the seed outside the
  canvas the canvas comes back unchanged (an empty canvas makes \<open>getImageData\<close> throw
  before anything is written).
\<close>

theorem floodFill_respects_bounds:
  "(\<not> inBounds w h (truncated q) \<longrightarrow> loopBody w h tc fc (data, q # stack) = (data, stack))
   \<and> (inBounds w h (truncated q) \<longrightarrow>
        loopBody w h tc fc (data, q # stack) = (data, stack)
        \<or> loopBody w h tc fc (data, q # stack)
            = (fillPixel data (pixelIndex w (truncated q)) fc, neighbours (truncated q) @ stack))
   \<and> floodFill (uniformCanvas 10 10 (hexToRgba ''#FFFFFF'')) 0 0 ''#FF0000''
        = Some (Inr (uniformCanvas 10 10 (255, 0, 0, 255)))
   \<and> pixels (uniformCanvas 10 10 (255, 0, 0, 255)) = concat (replicate 100 [255, 0, 0, 255])
   \<and> (\<not> inBounds (width ctx) (height ctx) (truncated (x, y)) \<longrightarrow>
        floodFill ctx x y hex =
          (if width ctx = 0 \<or> height ctx = 0 then Some (Inl IndexSizeError) else Some (Inr ctx)))"
proof -
  have white: "hexToRgba ''#FFFFFF'' = (255, 255, 255, 255)" by code_simp
  have red: "hexToRgba ''#FF0000'' = (255, 0, 0, 255)" by code_simp
  have s: "inBounds 10 10 (truncated (0, 0))" by (simp add: inBounds_def truncated_def)
  have "storedColor (hexToRgba ''#FFFFFF'') \<noteq> sampleOf (hexToRgba ''#FF0000'')"
    unfolding storedColor_hexToRgba by (simp add: white red sampleOf_def)
  with s have ex: "floodFill (uniformCanvas 10 10 (hexToRgba ''#FFFFFF'')) 0 0 ''#FF0000''
        = Some (Inr (uniformCanvas 10 10 (hexToRgba ''#FF0000'')))"
    by (rule floodFill_uniformCanvas)
  have px: "pixels (uniformCanvas 10 10 (255, 0, 0, 255)) = concat (replicate 100 [255, 0, 0, 255])"
    by (simp add: uniformCanvas_def uint8ClampedArray_def clampU8_def)
  have i: "inBounds w h (truncated q) \<longrightarrow>
        loopBody w h tc fc (data, q # stack) = (data, stack)
        \<or> loopBody w h tc fc (data, q # stack)
            = (fillPixel data (pixelIndex w (truncated q)) fc, neighbours (truncated q) @ stack)"
    by (simp add: loopBody_inside)
  show ?thesis
    using loopBody_outside [of w h q tc fc data stack] i ex px
      floodFill_outside [of ctx x y hex]
    unfolding red by blast
qed

theorem floodFill_respects_bounds_witness:
  "\<not> inBounds 2 2 (truncated (2, 0))
   \<and> loopBody 2 2 (Some 0, Some 0, Some 0, Some 255) (255, 0, 0, 255)
        ([1, 1, 1, 255, 1, 1, 1, 255, 0, 0, 0, 255, 1, 1, 1, 255], [(2, 0)])
       = ([1, 1, 1, 255, 1, 1, 1, 255, 0, 0, 0, 255, 1, 1, 1, 255], [])
   \<and> floodFill \<lparr>width = 2, height = 2,
                 pixels = [1, 1, 1, 255, 1, 1, 1, 255, 0, 0, 0, 255, 1, 1, 1, 255]\<rparr> 2 0 ''#ff0000''
       = Some (Inr \<lparr>width = 2, height = 2,
                    pixels = [1, 1, 1, 255, 1, 1, 1, 255, 0, 0, 0, 255, 1, 1, 1, 255]\<rparr>)
   \<and> inBounds 2 2 (truncated (1, 1))"
proof -
  have o: "\<not> inBounds 2 2 (truncated (2, 0))" by (simp add: inBounds_def truncated_def)
  have i: "inBounds 2 2 (truncated (1, 1))" by (simp add: inBounds_def truncated_def)
  show ?thesis
    using o i
      floodFill_respects_bounds [of 2 2 "(2, 0)" "(Some 0, Some 0, Some 0, Some 255)"
        "(255, 0, 0, 255)" "[1, 1, 1, 255, 1, 1, 1, 255, 0, 0, 0, 255, 1, 1, 1, 255]" "[]"
        "\<lparr>width = 2, height = 2,
           pixels = [1, 1, 1, 255, 1, 1, 1, 255, 0, 0, 0, 255, 1, 1, 1, 255]\<rparr>" 2 0 "''#ff0000''"]
    by simp
qed

end
